theory Spec2Isabelle
  imports Main "HOL-Library.Sublist"
begin

section \<open>Text primitives of the Python runtime\<close>

text \<open>
  The script \<^verbatim>\<open>update_examples.py\<close> works on Python \<^verbatim>\<open>str\<close> values. A text is
  modelled as a \<^typ>\<open>string\<close>; a \<^typ>\<open>char\<close> stands for the code point of the same
  number, so the model covers the texts whose code points are below 256.

  \<^verbatim>\<open>\s\<close> (and \<^verbatim>\<open>str.isspace\<close>, which \<^verbatim>\<open>lstrip\<close> and \<^verbatim>\<open>rstrip\<close> use) holds for
  the code points 9..13, 28..32, 133 and 160; \<^verbatim>\<open>\w\<close> holds for the alphanumeric code
  points and the underscore.
\<close>

definition is_space :: "char \<Rightarrow> bool" where
  "is_space c =
     (let n = (of_char c :: nat)
      in (9 \<le> n \<and> n \<le> 13) \<or> (28 \<le> n \<and> n \<le> 32) \<or> n = 133 \<or> n = 160)"

definition is_word :: "char \<Rightarrow> bool" where
  "is_word c =
     (let n = (of_char c :: nat)
      in (48 \<le> n \<and> n \<le> 57) \<or> (65 \<le> n \<and> n \<le> 90) \<or> n = 95 \<or> (97 \<le> n \<and> n \<le> 122) \<or>
         n = 170 \<or> n = 178 \<or> n = 179 \<or> n = 181 \<or> n = 185 \<or> n = 186 \<or>
         (188 \<le> n \<and> n \<le> 190) \<or> (192 \<le> n \<and> n \<le> 214) \<or> (216 \<le> n \<and> n \<le> 246) \<or>
         248 \<le> n)"

text \<open>\<^verbatim>\<open>s.startswith(p)\<close> and the substring test \<^verbatim>\<open>p in s\<close>.\<close>

definition startswith :: "string \<Rightarrow> string \<Rightarrow> bool" where
  "startswith p s = (take (length p) s = p)"

fun contains :: "string \<Rightarrow> string \<Rightarrow> bool" where
  "contains p [] = (p = [])"
| "contains p (c # cs) = (startswith p (c # cs) \<or> contains p cs)"

text \<open>The slices \<^verbatim>\<open>s[a:b]\<close> of a text and \<^verbatim>\<open>xs[a:b]\<close> of a list, for \<open>0 \<le> a\<close>.\<close>

definition slice :: "'a list \<Rightarrow> nat \<Rightarrow> nat \<Rightarrow> 'a list" where
  "slice xs a b = take (b - a) (drop a xs)"

text \<open>\<^verbatim>\<open>s.lstrip()\<close> and \<^verbatim>\<open>s.rstrip()\<close>.\<close>

definition lstrip :: "string \<Rightarrow> string" where
  "lstrip s = dropWhile is_space s"

definition rstrip :: "string \<Rightarrow> string" where
  "rstrip s = rev (dropWhile is_space (rev s))"

text \<open>\<^verbatim>\<open>s.split('\n')\<close> and \<^verbatim>\<open>'\n'.join(ls)\<close>.\<close>

fun split_nl :: "string \<Rightarrow> string list" where
  "split_nl [] = [[]]"
| "split_nl (c # cs) =
     (if c = CHR 0x0A then [] # split_nl cs
      else (case split_nl cs of [] \<Rightarrow> [[c]] | l # ls \<Rightarrow> (c # l) # ls))"

fun join_nl :: "string list \<Rightarrow> string" where
  "join_nl [] = []"
| "join_nl [l] = l"
| "join_nl (l # ls) = l @ CHR 0x0A # join_nl ls"

text \<open>
  \<^verbatim>\<open>s.replace(old, new)\<close>: the occurrences of \<open>old\<close> are replaced from left to right,
  without overlap; an empty \<open>old\<close> puts \<open>new\<close> around every character.
\<close>

function str_replace :: "string \<Rightarrow> string \<Rightarrow> string \<Rightarrow> string" where
  "str_replace old new [] = (if old = [] then new else [])"
| "str_replace old new (c # cs) =
     (if old = [] then new @ c # str_replace old new cs
      else if startswith old (c # cs)
        then new @ str_replace old new (drop (length old) (c # cs))
      else c # str_replace old new cs)"
  by pat_completeness auto
termination
  by (relation "measure (\<lambda>(old, new, s). length s)") auto

text \<open>\<^verbatim>\<open>str(n)\<close> for a natural number: its decimal digits.\<close>

definition digit_char :: "nat \<Rightarrow> char" where
  "digit_char d = char_of (48 + d)"

function str_nat :: "nat \<Rightarrow> string" where
  "str_nat n = (if n < 10 then [digit_char n] else str_nat (n div 10) @ [digit_char (n mod 10)])"
  by pat_completeness auto
termination
  by (relation "measure id") auto

section \<open>The regular expressions of the script\<close>

text \<open>
  The patterns of the script are sequences of literals, greedy repetitions of a character
  class (\<^verbatim>\<open>\s+\<close>, \<^verbatim>\<open>\s*\<close>, \<^verbatim>\<open>\w+\<close>, \<^verbatim>\<open>[^;]+\<close>) and group boundaries. A pattern is
  a list of such items; \<open>Rep m c\<close> is the class \<open>c\<close> repeated \<open>m\<close> times or more, and a
  \<open>Mark\<close> stands where a group opens or closes (the marks of group \<open>k\<close> are the marks
  number \<open>2k - 2\<close> and \<open>2k - 1\<close>).
\<close>

datatype cset = Space | WordCh | NoneOf string

fun in_cset :: "cset \<Rightarrow> char \<Rightarrow> bool" where
  "in_cset Space c = is_space c"
| "in_cset WordCh c = is_word c"
| "in_cset (NoneOf cs) c = (c \<notin> set cs)"

datatype tok = Lit string | Rep nat cset | Mark

fun first_some :: "'a option list \<Rightarrow> 'a option" where
  "first_some [] = None"
| "first_some (x # xs) = (case x of Some r \<Rightarrow> Some r | None \<Rightarrow> first_some xs)"

text \<open>
  The backtracking matcher: \<open>run p s n\<close> matches the pattern \<open>p\<close> at the start of the
  remaining input \<open>s\<close>, which begins at position \<open>n\<close> of the text. A greedy repetition
  first takes the longest run of its class and gives characters back one at a time until
  the rest of the pattern matches. The result is the list of the marks' positions and
  the position where the match ends.
\<close>

fun run :: "tok list \<Rightarrow> string \<Rightarrow> nat \<Rightarrow> (nat list \<times> nat) option" where
  "run [] s n = Some ([], n)"
| "run (Mark # ts) s n =
     (case run ts s n of None \<Rightarrow> None | Some (ms, e) \<Rightarrow> Some (n # ms, e))"
| "run (Lit l # ts) s n =
     (if startswith l s then run ts (drop (length l) s) (n + length l) else None)"
| "run (Rep mn c # ts) s n =
     first_some (map (\<lambda>j. run ts (drop j s) (n + j))
                     (rev [mn ..< Suc (length (takeWhile (in_cset c) s))]))"

lemma first_some_SomeD:
  "first_some xs = Some r \<Longrightarrow> Some r \<in> set xs"
  by (induction xs) (auto split: option.splits)

lemma startswith_length: "startswith l s \<Longrightarrow> length l \<le> length s"
proof -
  assume "startswith l s"
  then have "length (take (length l) s) = length l"
    by (simp add: startswith_def)
  then show ?thesis by simp
qed

lemma run_bounds:
  "run ts s n = Some (ms, e) \<Longrightarrow> n \<le> e \<and> e \<le> n + length s"
proof (induction ts s n arbitrary: ms e rule: run.induct)
  case (1 s n)
  then show ?case by simp
next
  case (2 ts s n)
  from 2(2) obtain ms2 where "run ts s n = Some (ms2, e)"
    by (cases "run ts s n") auto
  with 2(1) show ?case by blast
next
  case (3 l ts s n)
  from 3(2) have sw: "startswith l s"
    by (simp split: if_splits)
  with 3(2) have r: "run ts (drop (length l) s) (n + length l) = Some (ms, e)"
    by simp
  from 3(1) [OF sw r] startswith_length [OF sw] show ?case by simp
next
  case (4 mn c ts s n)
  let ?js = "rev [mn ..< Suc (length (takeWhile (in_cset c) s))]"
  from 4(2) have "first_some (map (\<lambda>j. run ts (drop j s) (n + j)) ?js) = Some (ms, e)"
    by (simp only: run.simps)
  then have "Some (ms, e) \<in> set (map (\<lambda>j. run ts (drop j s) (n + j)) ?js)"
    by (rule first_some_SomeD)
  then obtain j where j: "j \<in> set ?js"
    and r: "Some (ms, e) = run ts (drop j s) (n + j)"
    unfolding set_map by blast
  from j have "j \<le> length s"
    using length_takeWhile_le [of "in_cset c" s] by auto
  with 4(1) [OF j r [symmetric]] show ?case by simp
qed

text \<open>
  \<^verbatim>\<open>m.group(k)\<close> of a match on the text \<open>s\<close> with marks \<open>ms\<close>, and the expansion of a
  replacement template (its literal parts and its group references \<^verbatim>\<open>\1\<close>, \<^verbatim>\<open>\2\<close>).
  Every pattern of the script sets all its marks, so the empty text for a missing group
  is never produced.
\<close>

definition group :: "string \<Rightarrow> nat list \<Rightarrow> nat \<Rightarrow> string" where
  "group s ms k =
     (if 0 < k \<and> 2 * k - 1 < length ms then slice s (ms ! (2 * k - 2)) (ms ! (2 * k - 1))
      else [])"

datatype tpart = TLit string | TGroup nat

fun expand :: "tpart list \<Rightarrow> string \<Rightarrow> nat list \<Rightarrow> string" where
  "expand [] s ms = []"
| "expand (TLit l # r) s ms = l @ expand r s ms"
| "expand (TGroup k # r) s ms = group s ms k @ expand r s ms"

text \<open>
  \<^verbatim>\<open>re.sub(p, r, s)\<close>: every match of \<open>p\<close>, found from left to right without overlap,
  is replaced by the expansion of \<open>r\<close>. The matcher is tried at each position; where it
  fails the character is copied. (After an empty match the next character is copied;
  the patterns of the script never match the empty text.)
\<close>

function re_sub :: "tok list \<Rightarrow> tpart list \<Rightarrow> string \<Rightarrow> string" where
  "re_sub p r s =
     (case run p s 0 of
        None \<Rightarrow> (case s of [] \<Rightarrow> [] | c # cs \<Rightarrow> c # re_sub p r cs)
      | Some (ms, e) \<Rightarrow>
          expand r s ms @
          (if e = 0 then (case s of [] \<Rightarrow> [] | c # cs \<Rightarrow> c # re_sub p r cs)
           else re_sub p r (drop e s)))"
  by pat_completeness auto
termination
  by (relation "measure (\<lambda>(p, r, s). length s)") (auto dest!: run_bounds)

text \<open>
  \<^verbatim>\<open>re.finditer(p, s)\<close>: the spans (start, end) of the matches from left to right;
  \<open>finditer p s pos\<close> scans the remaining input \<open>s\<close> that begins at position \<open>pos\<close>.
\<close>

function finditer :: "tok list \<Rightarrow> string \<Rightarrow> nat \<Rightarrow> (nat \<times> nat) list" where
  "finditer p s pos =
     (case run p s pos of
        None \<Rightarrow> (case s of [] \<Rightarrow> [] | c # cs \<Rightarrow> finditer p cs (Suc pos))
      | Some (ms, e) \<Rightarrow>
          (pos, e) #
          (if e = pos then (case s of [] \<Rightarrow> [] | c # cs \<Rightarrow> finditer p cs (Suc pos))
           else finditer p (drop (e - pos) s) e))"
  by pat_completeness auto
termination
  by (relation "measure (\<lambda>(p, s, pos). length s)") (auto dest!: run_bounds)

text \<open>\<^verbatim>\<open>re.search(p, s)\<close>: the leftmost match, with its marks and its end.\<close>

fun re_search :: "tok list \<Rightarrow> string \<Rightarrow> nat \<Rightarrow> (nat list \<times> nat) option" where
  "re_search p [] pos = run p [] pos"
| "re_search p (c # cs) pos =
     (case run p (c # cs) pos of
        Some m \<Rightarrow> Some m
      | None \<Rightarrow> re_search p cs (Suc pos))"

section \<open>The passes of \<^verbatim>\<open>update_file\<close>\<close>

subsection \<open>The import pass (lines 17 to 27)\<close>

text \<open>\<^verbatim>\<open>use_pattern = r'(use [^;]+;)'\<close>\<close>

definition use_pattern :: "tok list" where
  "use_pattern = [Mark, Lit ''use '', Rep 1 (NoneOf '';''), Lit '';'', Mark]"

definition chia_import :: string where
  "chia_import = ''\<newline>use chia_bls::{SecretKey, PublicKey};''"

definition add_import :: "string \<times> bool \<Rightarrow> string \<times> bool" where
  "add_import = (\<lambda>(content, updated).
     if contains ''use gun::'' content \<or> contains ''use gun::'' content then
       if \<not> contains ''use chia_bls::'' content then
         (case finditer use_pattern content 0 of
            [] \<Rightarrow> (content, updated)
          | m # ms \<Rightarrow>
              (let insert_pos = snd (last (m # ms))
               in (take insert_pos content @ chia_import @ drop insert_pos content, True)))
       else (content, updated)
     else (content, updated))"

subsection \<open>The pass on \<^verbatim>\<open>Gun::new()\<close> (lines 29 to 45)\<close>

text \<open>
  \<^verbatim>\<open>pattern = r'(\s+)(let\s+gun\s*=\s*)Gun::new\(\);'\<close> and
  \<^verbatim>\<open>pattern2 = r'(\s+)(let\s+\w+\s*=\s*Arc::new\()Gun::new\(\)\);'\<close>, with their
  replacement templates.
\<close>

definition pattern :: "tok list" where
  "pattern =
     [Mark, Rep 1 Space, Mark,
      Mark, Lit ''let'', Rep 1 Space, Lit ''gun'', Rep 0 Space, Lit ''='', Rep 0 Space, Mark,
      Lit ''Gun::new();'']"

definition replacement :: "tpart list" where
  "replacement =
     [TGroup 1, TLit ''// Generate BLS key pair\<newline>'',
      TGroup 1, TLit ''let secret_key = SecretKey::from_seed(&[0u8; 32]);\<newline>'',
      TGroup 1, TLit ''let public_key = secret_key.public_key();\<newline>'',
      TGroup 1, TGroup 2, TLit ''Gun::new(secret_key, public_key);'']"

definition pattern2 :: "tok list" where
  "pattern2 =
     [Mark, Rep 1 Space, Mark,
      Mark, Lit ''let'', Rep 1 Space, Rep 1 WordCh, Rep 0 Space, Lit ''='', Rep 0 Space,
            Lit ''Arc::new('', Mark,
      Lit ''Gun::new());'']"

definition replacement2 :: "tpart list" where
  "replacement2 =
     [TGroup 1, TLit ''// Generate BLS key pair\<newline>'',
      TGroup 1, TLit ''let secret_key = SecretKey::from_seed(&[0u8; 32]);\<newline>'',
      TGroup 1, TLit ''let public_key = secret_key.public_key();\<newline>'',
      TGroup 1, TGroup 2, TLit ''Gun::new(secret_key, public_key));'']"

definition rewrite_new :: "string \<times> bool \<Rightarrow> string \<times> bool" where
  "rewrite_new = (\<lambda>(content, updated).
     if contains ''Gun::new()'' content then
       (let new_content = re_sub pattern replacement content;
            (content, updated) =
               (if new_content \<noteq> content then (new_content, True) else (content, updated));
            new_content = re_sub pattern2 replacement2 content
        in if new_content \<noteq> content then (new_content, True) else (content, updated))
     else (content, updated))"

subsection \<open>The pass on \<^verbatim>\<open>Gun::with_options(\<close> (lines 47 to 90)\<close>

text \<open>The pattern of the search in a line: \<^verbatim>\<open>r'Gun::with_options\((\w+)\)'\<close>.\<close>

definition options_pattern :: "tok list" where
  "options_pattern = [Lit ''Gun::with_options('', Mark, Rep 1 WordCh, Mark, Lit '')'']"

text \<open>The two inserted lines, as the f-strings build them, for an indentation and a counter.\<close>

definition key_gen :: "nat \<Rightarrow> nat \<Rightarrow> string" where
  "key_gen indent key_counter =
     (let indent_str = replicate indent CHR '' ''
      in indent_str @ ''let secret_key'' @ str_nat key_counter @
           '' = SecretKey::from_seed(&['' @ str_nat key_counter @ ''u8; 32]);\<newline>'' @
         indent_str @ ''let public_key'' @ str_nat key_counter @
           '' = secret_key'' @ str_nat key_counter @ ''.public_key();\<newline>'')"

text \<open>
  The \<^verbatim>\<open>while\<close> loop over the lines, with its state: the index \<open>i\<close>, the counter, the
  lines built so far and the flag \<open>updated\<close>. On the natural numbers \<open>i - 5\<close> is
  \<^verbatim>\<open>max(0, i-5)\<close>.
\<close>

function options_loop ::
  "string list \<Rightarrow> nat \<Rightarrow> nat \<Rightarrow> string list \<Rightarrow> bool \<Rightarrow> string list \<times> nat \<times> bool" where
  "options_loop lines i key_counter new_lines updated =
     (if i < length lines then
        (let line = lines ! i in
         if contains ''Gun::with_options('' line \<and>
            \<not> contains ''SecretKey::from_seed'' (join_nl (slice lines (max 0 (i - 5)) i))
         then
           (let indent = length line - length (lstrip line) in
            case re_search options_pattern line 0 of
              Some (ms, e) \<Rightarrow>
                (let options_var = group line ms 1;
                     line' = str_replace
                       (''Gun::with_options('' @ options_var @ '')'')
                       (''Gun::with_options(secret_key'' @ str_nat key_counter @
                          '', public_key'' @ str_nat key_counter @ '', '' @ options_var @ '')'')
                       line
                 in options_loop lines (i + 1) (key_counter + 1)
                      (new_lines @ [rstrip (key_gen indent key_counter), line']) True)
            | None \<Rightarrow> options_loop lines (i + 1) key_counter (new_lines @ [line]) updated)
         else options_loop lines (i + 1) key_counter (new_lines @ [line]) updated)
      else (new_lines, key_counter, updated))"
  by pat_completeness auto
termination
  by (relation "measure (\<lambda>(lines, i, key_counter, new_lines, updated). length lines - i)") auto

definition rewrite_options :: "string \<times> bool \<Rightarrow> string \<times> bool" where
  "rewrite_options = (\<lambda>(content, updated).
     if contains ''Gun::with_options('' content then
       (let (new_lines, key_counter, updated) =
              options_loop (split_nl content) 0 1 [] updated
        in if updated then (join_nl new_lines, updated) else (content, updated))
     else (content, updated))"

subsection \<open>The whole of \<^verbatim>\<open>update_file\<close>\<close>

text \<open>
  \<open>transform\<close> is the text and the flag \<open>updated\<close> after the three passes. The files are a
  map from paths to texts; \<open>update_file\<close> returns \<open>None\<close> where \<^verbatim>\<open>open\<close> raises (no such
  file), and otherwise the returned boolean with the files after the call.
\<close>

definition transform :: "string \<Rightarrow> string \<times> bool" where
  "transform original_content =
     rewrite_options (rewrite_new (add_import (original_content, False)))"

definition update_file ::
  "string \<Rightarrow> (string \<rightharpoonup> string) \<Rightarrow> (bool \<times> (string \<rightharpoonup> string)) option" where
  "update_file file_path fs =
     (case fs file_path of
        None \<Rightarrow> None
      | Some original_content \<Rightarrow>
          (let (content, updated) = transform original_content
           in if updated \<and> content \<noteq> original_content
              then Some (True, fs(file_path \<mapsto> content))
              else Some (False, fs)))"

section \<open>Facts about the text primitives\<close>

declare str_replace.simps [simp del]
declare str_nat.simps [simp del]
declare re_sub.simps [simp del]
declare finditer.simps [simp del]
declare options_loop.simps [simp del]

lemma startswith_iff: "startswith p s \<longleftrightarrow> (\<exists>b. s = p @ b)"
proof
  assume "startswith p s"
  then have "s = p @ drop (length p) s"
    by (metis startswith_def append_take_drop_id)
  then show "\<exists>b. s = p @ b" ..
next
  assume "\<exists>b. s = p @ b"
  then show "startswith p s" by (auto simp: startswith_def)
qed

lemma startswith_append [simp]: "startswith p (p @ b)"
  by (simp add: startswith_def)

lemma contains_iff: "contains p s \<longleftrightarrow> (\<exists>a b. s = a @ p @ b)"
proof (induction s)
  case Nil
  then show ?case by auto
next
  case (Cons c cs)
  show ?case
  proof
    assume "contains p (c # cs)"
    then consider "startswith p (c # cs)" | "contains p cs" by auto
    then show "\<exists>a b. c # cs = a @ p @ b"
    proof cases
      case 1
      then obtain b where "c # cs = p @ b" by (auto simp: startswith_iff)
      then have "c # cs = [] @ p @ b" by simp
      then show ?thesis by blast
    next
      case 2
      with Cons obtain a b where "cs = a @ p @ b" by auto
      then have "c # cs = (c # a) @ p @ b" by simp
      then show ?thesis by blast
    qed
  next
    assume "\<exists>a b. c # cs = a @ p @ b"
    then obtain a b where ab: "c # cs = a @ p @ b" by auto
    show "contains p (c # cs)"
    proof (cases a)
      case Nil
      with ab have "startswith p (c # cs)" by (auto simp: startswith_iff)
      then show ?thesis by simp
    next
      case (Cons x a')
      with ab have "cs = a' @ p @ b" by simp
      with Cons.IH show ?thesis by auto
    qed
  qed
qed

lemma contains_appendI: "contains p s \<Longrightarrow> contains p (a @ s @ b)"
proof -
  assume "contains p s"
  then obtain x y where "s = x @ p @ y" by (auto simp: contains_iff)
  then have "a @ s @ b = (a @ x) @ p @ (y @ b)" by simp
  then show ?thesis unfolding contains_iff by blast
qed

lemma contains_trans: "contains p q \<Longrightarrow> contains q s \<Longrightarrow> contains p s"
proof -
  assume "contains p q" "contains q s"
  then obtain a b where "s = a @ q @ b" by (auto simp: contains_iff)
  with \<open>contains p q\<close> show ?thesis by (simp add: contains_appendI)
qed

lemma chia_line_has_prefix:
  "contains ''use chia_bls::{SecretKey, PublicKey};'' t \<Longrightarrow> contains ''use chia_bls::'' t"
proof -
  have "contains ''use chia_bls::'' ''use chia_bls::{SecretKey, PublicKey};''"
    by (simp add: startswith_def)
  then show "contains ''use chia_bls::{SecretKey, PublicKey};'' t \<Longrightarrow> contains ''use chia_bls::'' t"
    by (rule contains_trans)
qed

lemma add_import_skip:
  "\<not> contains ''use gun::'' t \<or> contains ''use chia_bls::'' t \<Longrightarrow> add_import (t, u) = (t, u)"
  by (auto simp: add_import_def)

lemma rewrite_new_skip:
  "\<not> contains ''Gun::new()'' t \<Longrightarrow> rewrite_new (t, u) = (t, u)"
  by (simp add: rewrite_new_def)

lemma rewrite_options_skip:
  "\<not> contains ''Gun::with_options('' t \<Longrightarrow> rewrite_options (t, u) = (t, u)"
  by (simp add: rewrite_options_def)

text \<open>
  C4. A text with no \<^verbatim>\<open>Gun::new()\<close>, no \<^verbatim>\<open>Gun::with_options(\<close> and no reference
  \<^verbatim>\<open>use gun::\<close> that lacks the import line \<^verbatim>\<open>use chia_bls::{SecretKey, PublicKey};\<close>
  passes the three passes unchanged with the flag \<open>updated\<close> still false, and
  \<^verbatim>\<open>update_file\<close> on a file holding it returns false and leaves the files as they were.
\<close>

theorem untouched_text_not_updated:
  assumes "\<not> contains ''Gun::new()'' t"
    and "\<not> contains ''Gun::with_options('' t"
    and "\<not> (contains ''use gun::'' t \<and> \<not> contains ''use chia_bls::{SecretKey, PublicKey};'' t)"
  shows "transform t = (t, False) \<and>
         (fs file_path = Some t \<longrightarrow> update_file file_path fs = Some (False, fs))"
proof -
  from assms(3) have "\<not> contains ''use gun::'' t \<or> contains ''use chia_bls::'' t"
    using chia_line_has_prefix by blast
  then have "add_import (t, False) = (t, False)"
    by (rule add_import_skip)
  with assms(1,2) have tr: "transform t = (t, False)"
    by (simp add: transform_def rewrite_new_skip rewrite_options_skip)
  then show ?thesis
    by (simp add: update_file_def)
qed

theorem untouched_text_not_updated_witness:
  "transform ''use gun::Gun;\<newline>use chia_bls::{SecretKey, PublicKey};'' =
     (''use gun::Gun;\<newline>use chia_bls::{SecretKey, PublicKey};'', False) \<and>
   update_file ''a.rs'' [''a.rs'' \<mapsto> ''use gun::Gun;\<newline>use chia_bls::{SecretKey, PublicKey};'']
     = Some (False, [''a.rs'' \<mapsto> ''use gun::Gun;\<newline>use chia_bls::{SecretKey, PublicKey};''])"
  using untouched_text_not_updated
    [of "''use gun::Gun;\<newline>use chia_bls::{SecretKey, PublicKey};''"
        "[''a.rs'' \<mapsto> ''use gun::Gun;\<newline>use chia_bls::{SecretKey, PublicKey};'']" "''a.rs''"]
  by (simp add: startswith_def)

text \<open>
  C8. For a text that refers to the namespace (\<^verbatim>\<open>use gun::\<close>), lacks the import line of
  the key pair and has no match of \<^verbatim>\<open>use [^;]+;\<close> at all (the list of matches is empty),
  the import pass inserts nothing: text and flag leave the pass as they entered it.
\<close>

theorem no_import_statement_no_insertion:
  assumes "contains ''use gun::'' t"
    and "\<not> contains ''use chia_bls::{SecretKey, PublicKey};'' t"
    and "finditer use_pattern t 0 = []"
  shows "add_import (t, updated) = (t, updated)"
  using assms(3) by (simp add: add_import_def)

theorem no_import_statement_no_insertion_witness:
  "add_import (''use gun::Gun'', False) = (''use gun::Gun'', False)"
proof -
  have "contains ''use gun::'' ''use gun::Gun''"
    and "\<not> contains ''use chia_bls::{SecretKey, PublicKey};'' ''use gun::Gun''"
    and "finditer use_pattern ''use gun::Gun'' 0 = []"
    by code_simp+
  then show ?thesis
    by (rule no_import_statement_no_insertion)
qed

section \<open>One iteration of the loop over the lines\<close>

lemma options_loop_done:
  "\<not> i < length lines \<Longrightarrow> options_loop lines i k nl u = (nl, k, u)"
  by (subst options_loop.simps) simp

lemma options_loop_copy:
  assumes "i < length lines"
    and "\<not> contains ''Gun::with_options('' (lines ! i) \<or>
         contains ''SecretKey::from_seed'' (join_nl (slice lines (i - 5) i)) \<or>
         re_search options_pattern (lines ! i) 0 = None"
  shows "options_loop lines i k nl u = options_loop lines (i + 1) k (nl @ [lines ! i]) u"
  using assms by (subst options_loop.simps) (auto simp: Let_def)

lemma options_loop_rewrite:
  assumes "i < length lines"
    and "contains ''Gun::with_options('' (lines ! i)"
    and "\<not> contains ''SecretKey::from_seed'' (join_nl (slice lines (i - 5) i))"
    and "re_search options_pattern (lines ! i) 0 = Some (ms, e)"
  shows "options_loop lines i k nl u =
         options_loop lines (i + 1) (k + 1)
           (nl @ [rstrip (key_gen (length (lines ! i) - length (lstrip (lines ! i))) k),
                  str_replace
                    (''Gun::with_options('' @ group (lines ! i) ms 1 @ '')'')
                    (''Gun::with_options(secret_key'' @ str_nat k @ '', public_key'' @ str_nat k @
                       '', '' @ group (lines ! i) ms 1 @ '')'')
                    (lines ! i)])
           True"
  using assms by (subst options_loop.simps) (simp add: Let_def)

text \<open>
  C10. A line that contains \<^verbatim>\<open>Gun::with_options(\<close> on which the search for
  \<^verbatim>\<open>Gun::with_options\((\w+)\)\<close> finds no match goes through its iteration unchanged: the
  line is appended as it is, nothing is put before it, and the counter and the flag
  \<open>updated\<close> keep their values.
\<close>

theorem unmatched_call_line_unchanged:
  assumes "i < length lines"
    and "contains ''Gun::with_options('' (lines ! i)"
    and "re_search options_pattern (lines ! i) 0 = None"
  shows "options_loop lines i key_counter new_lines updated =
         options_loop lines (i + 1) key_counter (new_lines @ [lines ! i]) updated"
  using assms(1,3) by (simp add: options_loop_copy)

theorem unmatched_call_line_unchanged_witness:
  "options_loop [''Gun::with_options(a.b)''] 0 1 [] False = ([''Gun::with_options(a.b)''], 1, False)"
proof -
  have "(0::nat) < length [''Gun::with_options(a.b)'']"
    and "contains ''Gun::with_options('' ([''Gun::with_options(a.b)''] ! 0)"
    and "re_search options_pattern ([''Gun::with_options(a.b)''] ! 0) 0 = None"
    by code_simp+
  then have "options_loop [''Gun::with_options(a.b)''] 0 1 [] False =
      options_loop [''Gun::with_options(a.b)''] (0 + 1) 1 ([] @ [[''Gun::with_options(a.b)''] ! 0]) False"
    by (rule unmatched_call_line_unchanged)
  also have "\<dots> = ([''Gun::with_options(a.b)''], 1, False)"
    by code_simp
  finally show ?thesis .
qed

lemma options_loop_acc:
  "options_loop lines i k nl u =
     (nl @ fst (options_loop lines i k [] u), snd (options_loop lines i k [] u))"
proof (induction "length lines - i" arbitrary: i k nl u)
  case 0
  then have "\<not> i < length lines" by simp
  then show ?case by (simp add: options_loop_done)
next
  case (Suc n)
  then have i: "i < length lines" and n: "n = length lines - (i + 1)" by simp_all
  let ?copy = "\<not> contains ''Gun::with_options('' (lines ! i) \<or>
         contains ''SecretKey::from_seed'' (join_nl (slice lines (i - 5) i)) \<or>
         re_search options_pattern (lines ! i) 0 = None"
  show ?case
  proof (cases ?copy)
    case True
    have a: "options_loop lines i k nl u = options_loop lines (i + 1) k (nl @ [lines ! i]) u"
      and b: "options_loop lines i k [] u = options_loop lines (i + 1) k ([] @ [lines ! i]) u"
      using i True by (rule options_loop_copy)+
    show ?thesis
      unfolding a b
      by (subst Suc(1) [OF n], subst (2 3) Suc(1) [OF n]) simp
  next
    case False
    then obtain ms e where m: "re_search options_pattern (lines ! i) 0 = Some (ms, e)"
      by (cases "re_search options_pattern (lines ! i) 0") auto
    from False have g: "contains ''Gun::with_options('' (lines ! i)"
      and w: "\<not> contains ''SecretKey::from_seed'' (join_nl (slice lines (i - 5) i))"
      by simp_all
    note a = options_loop_rewrite [OF i g w m, of k nl u]
    note b = options_loop_rewrite [OF i g w m, of k "[]" u]
    show ?thesis
      unfolding a b
      by (subst Suc(1) [OF n], subst (2 3) Suc(1) [OF n]) simp
  qed
qed

lemma contains_Nil [simp]: "contains [] s"
  by (cases s) (simp_all add: startswith_def)

lemma contains_sep:
  assumes "c \<notin> set p"
  shows "contains p (a @ c # b) \<longleftrightarrow> contains p a \<or> contains p b"
proof
  assume "contains p (a @ c # b)"
  then obtain x y where xy: "a @ c # b = x @ p @ y"
    by (auto simp: contains_iff)
  then consider us where "a = x @ us" "us @ c # b = p @ y"
    | us where "a @ us = x" "c # b = us @ p @ y"
    by (auto simp: append_eq_append_conv2)
  then show "contains p a \<or> contains p b"
  proof cases
    case 1
    from 1(2) consider vs where "us = p @ vs" | vs where "us @ vs = p" "c # b = vs @ y"
      by (auto simp: append_eq_append_conv2)
    then show ?thesis
    proof cases
      case 1
      with \<open>a = x @ us\<close> have "a = x @ p @ vs" by simp
      then show ?thesis unfolding contains_iff by blast
    next
      case 2
      show ?thesis
      proof (cases vs)
        case Nil
        with 2 \<open>a = x @ us\<close> have "a = x @ p @ []" by simp
        then show ?thesis unfolding contains_iff by blast
      next
        case (Cons v vs')
        with 2 have "c \<in> set p" by auto
        with assms show ?thesis by simp
      qed
    qed
  next
    case 2
    show ?thesis
    proof (cases us)
      case Nil
      with 2 have "c # b = p @ y" by simp
      with assms have "p = []" by (cases p) auto
      then show ?thesis by simp
    next
      case (Cons v us')
      with 2 have "b = us' @ p @ y" by simp
      then show ?thesis unfolding contains_iff by blast
    qed
  qed
next
  assume "contains p a \<or> contains p b"
  then show "contains p (a @ c # b)"
  proof
    assume "contains p a"
    then have "contains p ([] @ a @ (c # b))" by (rule contains_appendI)
    then show ?thesis by simp
  next
    assume "contains p b"
    then have "contains p ((a @ [c]) @ b @ [])" by (rule contains_appendI)
    then show ?thesis by simp
  qed
qed

lemma contains_join_nl:
  assumes "CHR 0x0A \<notin> set p" and "p \<noteq> []"
  shows "contains p (join_nl ls) \<longleftrightarrow> (\<exists>l \<in> set ls. contains p l)"
proof (induction ls rule: join_nl.induct)
  case 1
  from assms(2) show ?case by simp
next
  case (2 l)
  show ?case by simp
next
  case (3 l v va)
  then show ?case
    using contains_sep [OF assms(1), of l "join_nl (v # va)"] by simp
qed

lemma slice_nth:
  "i \<le> length xs \<Longrightarrow> slice xs (i - n) i = map (\<lambda>j. xs ! j) [i - n ..< i]"
  unfolding slice_def
  by (rule nth_equalityI) (auto simp: nth_append)

lemma window_contains:
  assumes "i \<le> length lines"
  shows "contains ''SecretKey::from_seed'' (join_nl (slice lines (i - 5) i)) \<longleftrightarrow>
         (\<exists>j. i - 5 \<le> j \<and> j < i \<and> contains ''SecretKey::from_seed'' (lines ! j))"
proof -
  have "contains ''SecretKey::from_seed'' (join_nl (slice lines (i - 5) i)) \<longleftrightarrow>
        (\<exists>l \<in> set (slice lines (i - 5) i). contains ''SecretKey::from_seed'' l)"
    by (rule contains_join_nl) simp_all
  also have "\<dots> \<longleftrightarrow> (\<exists>j. i - 5 \<le> j \<and> j < i \<and> contains ''SecretKey::from_seed'' (lines ! j))"
    unfolding slice_nth [OF assms] by auto
  finally show ?thesis .
qed

text \<open>
  C7, as the code has it. In the iteration on a line that contains
  \<^verbatim>\<open>Gun::with_options(\<close>: when \<^verbatim>\<open>SecretKey::from_seed\<close> occurs in the window of preceding
  lines, the line is appended unchanged, nothing is inserted and the counter keeps its
  value; when it does not occur there and the search for \<^verbatim>\<open>Gun::with_options\((\w+)\)\<close>
  matches the line (the argument is a single identifier), the two key lines are inserted,
  the call is rewritten, the counter goes up by one and the flag is set. A call whose
  argument is not a single identifier is not rewritten, whatever the window holds.
\<close>

theorem window_decides_matched_call:
  assumes "i < length lines"
    and "contains ''Gun::with_options('' (lines ! i)"
  shows "(contains ''SecretKey::from_seed'' (join_nl (slice lines (max 0 (i - 5)) i)) \<longrightarrow>
            options_loop lines i key_counter new_lines updated =
            options_loop lines (i + 1) key_counter (new_lines @ [lines ! i]) updated) \<and>
         (\<not> contains ''SecretKey::from_seed'' (join_nl (slice lines (max 0 (i - 5)) i)) \<longrightarrow>
          re_search options_pattern (lines ! i) 0 = Some (ms, e) \<longrightarrow>
            options_loop lines i key_counter new_lines updated =
            options_loop lines (i + 1) (key_counter + 1)
              (new_lines @
                 [rstrip (key_gen (length (lines ! i) - length (lstrip (lines ! i))) key_counter),
                  str_replace
                    (''Gun::with_options('' @ group (lines ! i) ms 1 @ '')'')
                    (''Gun::with_options(secret_key'' @ str_nat key_counter @
                       '', public_key'' @ str_nat key_counter @
                       '', '' @ group (lines ! i) ms 1 @ '')'')
                    (lines ! i)])
              True)"
  using assms by (simp add: options_loop_copy options_loop_rewrite)

theorem window_decides_matched_call_witness:
  "options_loop [''let k = SecretKey::from_seed(&[7u8; 32]);'', ''let g = Gun::with_options(o).await;'']
     1 1 [''let k = SecretKey::from_seed(&[7u8; 32]);''] False =
     ([''let k = SecretKey::from_seed(&[7u8; 32]);'', ''let g = Gun::with_options(o).await;''],
      1, False) \<and>
   options_loop [''let g = Gun::with_options(o).await;''] 0 1 [] False =
     ([''let secret_key1 = SecretKey::from_seed(&[1u8; 32]);\<newline>let public_key1 = secret_key1.public_key();'',
       ''let g = Gun::with_options(secret_key1, public_key1, o).await;''],
      2, True)"
proof -
  let ?k = "''let k = SecretKey::from_seed(&[7u8; 32]);''"
  let ?g = "''let g = Gun::with_options(o).await;''"
  have a1: "(1::nat) < length [?k, ?g]"
    and a2: "contains ''Gun::with_options('' ([?k, ?g] ! 1)"
    and a3: "contains ''SecretKey::from_seed'' (join_nl (slice [?k, ?g] (max 0 (1 - 5)) 1))"
    by code_simp+
  have b1: "(0::nat) < length [?g]"
    and b2: "contains ''Gun::with_options('' ([?g] ! 0)"
    and b3: "\<not> contains ''SecretKey::from_seed'' (join_nl (slice [?g] (max 0 (0 - 5)) 0))"
    and b4: "re_search options_pattern ([?g] ! 0) 0 = Some ([26, 27], 28)"
    by code_simp+
  from window_decides_matched_call [OF a1 a2, where key_counter = 1 and new_lines = "[?k]" and updated = False] a3
  have "options_loop [?k, ?g] 1 1 [?k] False =
        options_loop [?k, ?g] (1 + 1) 1 ([?k] @ [[?k, ?g] ! 1]) False"
    by blast
  also have "\<dots> = ([?k, ?g], 1, False)"
    by code_simp
  finally have A: "options_loop [?k, ?g] 1 1 [?k] False = ([?k, ?g], 1, False)" .
  from window_decides_matched_call [OF b1 b2, where ms = "[26, 27]" and e = 28 and key_counter = 1 and new_lines = "[]" and updated = False] b3 b4
  have "options_loop [?g] 0 1 [] False =
        options_loop [?g] (0 + 1) (1 + 1)
          ([] @ [rstrip (key_gen (length ([?g] ! 0) - length (lstrip ([?g] ! 0))) 1),
                 str_replace
                   (''Gun::with_options('' @ group ([?g] ! 0) [26, 27] 1 @ '')'')
                   (''Gun::with_options(secret_key'' @ str_nat 1 @ '', public_key'' @ str_nat 1 @
                      '', '' @ group ([?g] ! 0) [26, 27] 1 @ '')'')
                   ([?g] ! 0)])
          True"
    by blast
  also have "\<dots> =
     ([''let secret_key1 = SecretKey::from_seed(&[1u8; 32]);\<newline>let public_key1 = secret_key1.public_key();'',
       ''let g = Gun::with_options(secret_key1, public_key1, o).await;''],
      2, True)"
    by code_simp
  finally show ?thesis using A by simp
qed

theorem unguarded_complex_call_counterexample:
  "contains ''Gun::with_options('' ''    let gun = Gun::with_options(GunOptions::default()).await?;'' \<and>
   \<not> contains ''SecretKey::from_seed'' ''    let gun = Gun::with_options(GunOptions::default()).await?;'' \<and>
   rewrite_options (''    let gun = Gun::with_options(GunOptions::default()).await?;'', False) =
     (''    let gun = Gun::with_options(GunOptions::default()).await?;'', False)"
  by code_simp

text \<open>
  C9. In the iteration on line \<open>i\<close> the window is the list of the (at most five) lines
  \<open>i - 5, \<dots>, i - 1\<close> of the list \<open>lines\<close> that the text was split into before the loop
  started. \<^verbatim>\<open>SecretKey::from_seed\<close> is found in the window exactly when one of these
  lines contains it. So an occurrence six or more lines before the call does not keep a
  matched call from being rewritten, and an occurrence in one of the five lines keeps the
  line as it is, whatever that occurrence belongs to. The lines built so far, with the key
  lines inserted earlier in the pass, are not read: they are only extended, and the
  iteration does the same from any value of \<open>new_lines\<close>.
\<close>

theorem lookback_window_five_original_lines:
  assumes "i < length lines"
  shows "slice lines (max 0 (i - 5)) i = map (\<lambda>j. lines ! j) [i - 5 ..< i] \<and>
         (contains ''SecretKey::from_seed'' (join_nl (slice lines (max 0 (i - 5)) i)) \<longleftrightarrow>
            (\<exists>j. i - 5 \<le> j \<and> j < i \<and> contains ''SecretKey::from_seed'' (lines ! j))) \<and>
         ((\<forall>j. i - 5 \<le> j \<and> j < i \<longrightarrow> \<not> contains ''SecretKey::from_seed'' (lines ! j)) \<longrightarrow>
          contains ''Gun::with_options('' (lines ! i) \<longrightarrow>
          re_search options_pattern (lines ! i) 0 = Some (ms, e) \<longrightarrow>
            options_loop lines i key_counter new_lines updated =
            options_loop lines (i + 1) (key_counter + 1)
              (new_lines @
                 [rstrip (key_gen (length (lines ! i) - length (lstrip (lines ! i))) key_counter),
                  str_replace
                    (''Gun::with_options('' @ group (lines ! i) ms 1 @ '')'')
                    (''Gun::with_options(secret_key'' @ str_nat key_counter @
                       '', public_key'' @ str_nat key_counter @
                       '', '' @ group (lines ! i) ms 1 @ '')'')
                    (lines ! i)])
              True) \<and>
         ((\<exists>j. i - 5 \<le> j \<and> j < i \<and> contains ''SecretKey::from_seed'' (lines ! j)) \<longrightarrow>
            options_loop lines i key_counter new_lines updated =
            options_loop lines (i + 1) key_counter (new_lines @ [lines ! i]) updated) \<and>
         options_loop lines i key_counter new_lines updated =
           (new_lines @ fst (options_loop lines i key_counter [] updated),
            snd (options_loop lines i key_counter [] updated))"
proof -
  from assms have le: "i \<le> length lines" by simp
  have w: "contains ''SecretKey::from_seed'' (join_nl (slice lines (i - 5) i)) \<longleftrightarrow>
        (\<exists>j. i - 5 \<le> j \<and> j < i \<and> contains ''SecretKey::from_seed'' (lines ! j))"
    using le by (rule window_contains)
  have 1: "slice lines (max 0 (i - 5)) i = map (\<lambda>j. lines ! j) [i - 5 ..< i]"
    using slice_nth [OF le, of 5] by simp
  have 2: "contains ''SecretKey::from_seed'' (join_nl (slice lines (max 0 (i - 5)) i)) \<longleftrightarrow>
            (\<exists>j. i - 5 \<le> j \<and> j < i \<and> contains ''SecretKey::from_seed'' (lines ! j))"
    using w by simp
  have 3: "options_loop lines i key_counter new_lines updated =
            options_loop lines (i + 1) (key_counter + 1)
              (new_lines @
                 [rstrip (key_gen (length (lines ! i) - length (lstrip (lines ! i))) key_counter),
                  str_replace
                    (''Gun::with_options('' @ group (lines ! i) ms 1 @ '')'')
                    (''Gun::with_options(secret_key'' @ str_nat key_counter @
                       '', public_key'' @ str_nat key_counter @
                       '', '' @ group (lines ! i) ms 1 @ '')'')
                    (lines ! i)])
              True"
    if "\<forall>j. i - 5 \<le> j \<and> j < i \<longrightarrow> \<not> contains ''SecretKey::from_seed'' (lines ! j)"
      and "contains ''Gun::with_options('' (lines ! i)"
      and "re_search options_pattern (lines ! i) 0 = Some (ms, e)"
  proof -
    from that(1) w have "\<not> contains ''SecretKey::from_seed'' (join_nl (slice lines (i - 5) i))"
      by blast
    with assms that(2) show ?thesis
      using that(3) by (rule options_loop_rewrite)
  qed
  have 4: "options_loop lines i key_counter new_lines updated =
            options_loop lines (i + 1) key_counter (new_lines @ [lines ! i]) updated"
    if "\<exists>j. i - 5 \<le> j \<and> j < i \<and> contains ''SecretKey::from_seed'' (lines ! j)"
  proof -
    from that w have "contains ''SecretKey::from_seed'' (join_nl (slice lines (i - 5) i))"
      by blast
    with assms show ?thesis
      by (simp add: options_loop_copy)
  qed
  have 5: "options_loop lines i key_counter new_lines updated =
           (new_lines @ fst (options_loop lines i key_counter [] updated),
            snd (options_loop lines i key_counter [] updated))"
    by (rule options_loop_acc)
  from 1 2 3 4 5 show ?thesis by blast
qed

theorem lookback_window_five_original_lines_witness:
  "options_loop
     [''SecretKey::from_seed'', ''a'', ''b'', ''c'', ''d'', ''e'', ''Gun::with_options(o)'']
     6 1 [] False =
     ([''let secret_key1 = SecretKey::from_seed(&[1u8; 32]);\<newline>let public_key1 = secret_key1.public_key();'',
       ''Gun::with_options(secret_key1, public_key1, o)''], 2, True) \<and>
   options_loop
     [''SecretKey::from_seed'', ''a'', ''b'', ''c'', ''d'', ''Gun::with_options(o)'']
     5 1 [] False =
     ([''Gun::with_options(o)''], 1, False)"
proof -
  let ?far = "[''SecretKey::from_seed'', ''a'', ''b'', ''c'', ''d'', ''e'', ''Gun::with_options(o)'']"
  let ?near = "[''SecretKey::from_seed'', ''a'', ''b'', ''c'', ''d'', ''Gun::with_options(o)'']"
  have a1: "(6::nat) < length ?far"
    and a2: "\<not> contains ''SecretKey::from_seed'' (join_nl (slice ?far (max 0 (6 - 5)) 6))"
    and a3: "contains ''Gun::with_options('' (?far ! 6)"
    and a4: "re_search options_pattern (?far ! 6) 0 = Some ([18, 19], 20)"
    by code_simp+
  have b1: "(5::nat) < length ?near"
    and b2: "contains ''SecretKey::from_seed'' (join_nl (slice ?near (max 0 (5 - 5)) 5))"
    by code_simp+
  from lookback_window_five_original_lines
    [OF a1, where ms = "[18, 19]" and e = 20 and key_counter = 1 and new_lines = "[]"
      and updated = False] a2 a3 a4
  have "options_loop ?far 6 1 [] False =
        options_loop ?far (6 + 1) (1 + 1)
          ([] @ [rstrip (key_gen (length (?far ! 6) - length (lstrip (?far ! 6))) 1),
                 str_replace
                   (''Gun::with_options('' @ group (?far ! 6) [18, 19] 1 @ '')'')
                   (''Gun::with_options(secret_key'' @ str_nat 1 @ '', public_key'' @ str_nat 1 @
                      '', '' @ group (?far ! 6) [18, 19] 1 @ '')'')
                   (?far ! 6)])
          True"
    by blast
  also have "\<dots> =
     ([''let secret_key1 = SecretKey::from_seed(&[1u8; 32]);\<newline>let public_key1 = secret_key1.public_key();'',
       ''Gun::with_options(secret_key1, public_key1, o)''], 2, True)"
    by code_simp
  finally have A: "options_loop ?far 6 1 [] False =
     ([''let secret_key1 = SecretKey::from_seed(&[1u8; 32]);\<newline>let public_key1 = secret_key1.public_key();'',
       ''Gun::with_options(secret_key1, public_key1, o)''], 2, True)" .
  from lookback_window_five_original_lines
    [OF b1, where key_counter = 1 and new_lines = "[]" and updated = False] b2
  have "options_loop ?near 5 1 [] False =
        options_loop ?near (5 + 1) 1 ([] @ [?near ! 5]) False"
    by blast
  also have "\<dots> = ([''Gun::with_options(o)''], 1, False)"
    by code_simp
  finally show ?thesis using A by simp
qed

lemma run_options_at_call:
  "run options_pattern (''Gun::with_options(options).await'' @ b) n = Some ([n + 18, n + 25], n + 26)"
  by (simp add: options_pattern_def startswith_def is_word_def)

lemma re_search_skip:
  "(\<And>k. k < length a \<Longrightarrow> run p (drop k a @ s) (pos + k) = None) \<Longrightarrow>
   re_search p (a @ s) pos = re_search p s (pos + length a)"
proof (induction a arbitrary: pos)
  case Nil
  then show ?case by simp
next
  case (Cons c a)
  from Cons.prems [of 0] have 0: "run p (c # a @ s) pos = None" by simp
  have "re_search p (a @ s) (Suc pos) = re_search p s (Suc pos + length a)"
  proof (rule Cons.IH)
    fix k assume "k < length a"
    with Cons.prems [of "Suc k"] show "run p (drop k a @ s) (Suc pos + k) = None" by simp
  qed
  with 0 show ?case by simp
qed

lemma re_search_hit:
  "run p s pos = Some m \<Longrightarrow> re_search p s pos = Some m"
  by (cases s) simp_all

lemma startswith_overlap:
  assumes "startswith (c # g) (u @ (c # g) @ r)" and "u \<noteq> []" and "c \<notin> set g"
  shows "startswith (c # g) u"
proof (cases "length (c # g) \<le> length u")
  case True
  with assms(1) show ?thesis by (simp add: startswith_def)
next
  case False
  then have lt: "length u < length (c # g)" by simp
  from assms(1) have "take (length (c # g)) (u @ (c # g) @ r) = c # g"
    by (simp only: startswith_def)
  with lt have "(u @ (c # g) @ r) ! length u = (c # g) ! length u"
    by (metis nth_take)
  then have "c = (c # g) ! length u"
    by (simp add: nth_append)
  moreover from assms(2) lt have "(c # g) ! length u \<in> set g"
    by (cases u) auto
  ultimately show ?thesis using assms(3) by simp
qed

lemma startswith_drop_contains:
  "startswith p (drop k a) \<Longrightarrow> contains p a"
proof -
  assume "startswith p (drop k a)"
  then obtain b where "drop k a = p @ b" by (auto simp: startswith_iff)
  then have "a = take k a @ p @ b" by (metis append_take_drop_id)
  then show ?thesis unfolding contains_iff by blast
qed

lemma no_call_before:
  assumes "\<not> contains ''Gun::with_options('' a" and "k < length a"
  shows "\<not> startswith ''Gun::with_options('' (drop k a @ ''Gun::with_options('' @ r)"
proof
  assume "startswith ''Gun::with_options('' (drop k a @ ''Gun::with_options('' @ r)"
  moreover from assms(2) have "drop k a \<noteq> []" by simp
  ultimately have "startswith ''Gun::with_options('' (drop k a)"
    by (rule startswith_overlap) simp
  with assms(1) show False by (auto dest: startswith_drop_contains)
qed

lemma startswith_appendD: "startswith (p @ q) s \<Longrightarrow> startswith p s"
  by (auto simp: startswith_iff)

lemma str_replace_skip:
  assumes "old \<noteq> []"
  shows "(\<And>k. k < length a \<Longrightarrow> \<not> startswith old (drop k a @ s)) \<Longrightarrow>
         str_replace old new (a @ s) = a @ str_replace old new s"
proof (induction a)
  case Nil
  then show ?case by simp
next
  case (Cons c a)
  from Cons.prems [of 0] have 0: "\<not> startswith old (c # a @ s)" by simp
  have "str_replace old new (a @ s) = a @ str_replace old new s"
  proof (rule Cons.IH)
    fix k assume "k < length a"
    with Cons.prems [of "Suc k"] show "\<not> startswith old (drop k a @ s)" by simp
  qed
  with 0 assms show ?case by (simp add: str_replace.simps)
qed

lemma str_replace_hit:
  assumes "old \<noteq> []"
  shows "str_replace old new (old @ r) = new @ str_replace old new r"
proof -
  from assms obtain c cs where "old @ r = c # cs" by (cases old) auto
  moreover have "startswith old (old @ r)" by simp
  ultimately show ?thesis using assms
    by (metis append_eq_conv_conj str_replace.simps(2))
qed

lemma options_loop_copy_range:
  assumes "m \<le> length lines"
  shows "i \<le> m \<Longrightarrow> (\<And>j. i \<le> j \<Longrightarrow> j < m \<Longrightarrow> \<not> contains ''Gun::with_options('' (lines ! j)) \<Longrightarrow>
         options_loop lines i k nl u = options_loop lines m k (nl @ map (\<lambda>j. lines ! j) [i ..< m]) u"
proof (induction "m - i" arbitrary: i nl)
  case 0
  then show ?case by simp
next
  case (Suc n)
  then have im: "i < m" and n: "n = m - (i + 1)" by simp_all
  with assms have il: "i < length lines" by simp
  from Suc.prems(2) [of i] im have "\<not> contains ''Gun::with_options('' (lines ! i)" by simp
  with il have "options_loop lines i k nl u = options_loop lines (i + 1) k (nl @ [lines ! i]) u"
    by (simp add: options_loop_copy)
  also have "\<dots> = options_loop lines m k ((nl @ [lines ! i]) @ map (\<lambda>j. lines ! j) [i + 1 ..< m]) u"
    using im Suc.prems(2) by (intro Suc(1) [OF n]) simp_all
  also have "(nl @ [lines ! i]) @ map (\<lambda>j. lines ! j) [i + 1 ..< m] = nl @ map (\<lambda>j. lines ! j) [i ..< m]"
    using im by (simp add: upt_conv_Cons)
  finally show ?case .
qed

lemma split_nl_not_Nil [simp]: "split_nl s \<noteq> []"
  by (induction s) (auto split: list.splits)

lemma join_split_nl [simp]: "join_nl (split_nl s) = s"
proof (induction s)
  case Nil
  then show ?case by simp
next
  case (Cons c s)
  obtain l ls where ls: "split_nl s = l # ls"
    by (cases "split_nl s") simp_all
  with Cons show ?case by (cases ls) auto
qed

lemma call_line_search:
  assumes "\<not> contains ''Gun::with_options('' a"
  shows "re_search options_pattern (a @ ''Gun::with_options(options).await'' @ b) 0 =
         Some ([length a + 18, length a + 25], length a + 26)"
proof -
  have "re_search options_pattern (a @ ''Gun::with_options(options).await'' @ b) 0 =
        re_search options_pattern (''Gun::with_options(options).await'' @ b) (0 + length a)"
  proof (rule re_search_skip)
    fix k assume "k < length a"
    with assms have "\<not> startswith ''Gun::with_options('' (drop k a @ ''Gun::with_options('' @ (''options).await'' @ b))"
      by (rule no_call_before)
    then show "run options_pattern (drop k a @ ''Gun::with_options(options).await'' @ b) (0 + k) = None"
      by (simp add: options_pattern_def)
  qed
  also have "\<dots> = Some ([length a + 18, length a + 25], length a + 26)"
    using run_options_at_call [of b "length a"] by (simp add: re_search_hit)
  finally show ?thesis .
qed

lemma call_line_group:
  "group (a @ ''Gun::with_options(options).await'' @ b) [length a + 18, length a + 25] 1 = ''options''"
  by (simp add: group_def slice_def)

lemma call_line_replace:
  assumes "\<not> contains ''Gun::with_options('' a"
  shows "str_replace (''Gun::with_options('' @ ''options'' @ '')'') new
           (a @ ''Gun::with_options(options).await'' @ b) =
         a @ new @ ''.await'' @ str_replace ''Gun::with_options(options)'' new b"
proof -
  let ?old = "''Gun::with_options(options)''"
  have old: "''Gun::with_options('' @ ''options'' @ '')'' = ?old" by simp
  have "str_replace ?old new (a @ (?old @ ''.await'' @ b)) = a @ str_replace ?old new (?old @ ''.await'' @ b)"
  proof (rule str_replace_skip)
    show "?old \<noteq> []" by simp
  next
    fix k assume "k < length a"
    with assms have "\<not> startswith ''Gun::with_options('' (drop k a @ ''Gun::with_options('' @ (''options).await'' @ b))"
      by (rule no_call_before)
    moreover have "startswith ?old s \<Longrightarrow> startswith ''Gun::with_options('' s" for s
      using startswith_appendD [of "''Gun::with_options(''" "''options)''" s] by simp
    ultimately show "\<not> startswith ?old (drop k a @ ?old @ ''.await'' @ b)"
      by auto
  qed
  also have "str_replace ?old new (?old @ ''.await'' @ b) = new @ str_replace ?old new (''.await'' @ b)"
    by (rule str_replace_hit) simp
  also have "str_replace ?old new (''.await'' @ b) = ''.await'' @ str_replace ?old new b"
    by (simp add: str_replace.simps startswith_def)
  finally show ?thesis unfolding old by simp
qed

lemma rstrip_snoc2:
  "\<not> is_space c \<Longrightarrow> is_space d \<Longrightarrow> rstrip (x @ [c, d]) = x @ [c]"
  by (simp add: rstrip_def)

lemma rstrip_key_gen:
  "rstrip (key_gen n k) =
     replicate n CHR '' '' @ ''let secret_key'' @ str_nat k @
       '' = SecretKey::from_seed(&['' @ str_nat k @ ''u8; 32]);\<newline>'' @
     replicate n CHR '' '' @ ''let public_key'' @ str_nat k @
       '' = secret_key'' @ str_nat k @ ''.public_key();''"
proof -
  let ?x = "replicate n CHR '' '' @ ''let secret_key'' @ str_nat k @
       '' = SecretKey::from_seed(&['' @ str_nat k @ ''u8; 32]);\<newline>'' @
     replicate n CHR '' '' @ ''let public_key'' @ str_nat k @
       '' = secret_key'' @ str_nat k @ ''.public_key()''"
  have "key_gen n k = ?x @ [CHR '';'', CHR 0x0A]"
    by (simp add: key_gen_def Let_def)
  moreover have "rstrip (?x @ [CHR '';'', CHR 0x0A]) = ?x @ [CHR '';'']"
    by (rule rstrip_snoc2) (simp_all add: is_space_def)
  ultimately show ?thesis by simp
qed

lemma str_nat_1: "str_nat 1 = ''1''" by code_simp
lemma str_nat_2: "str_nat 2 = ''2''" by code_simp

lemma indent_takeWhile:
  "length l - length (lstrip l) = length (takeWhile is_space l)"
proof -
  have "length (takeWhile is_space l) + length (dropWhile is_space l) = length l"
    by (metis length_append takeWhile_dropWhile_id)
  then show ?thesis by (simp add: lstrip_def)
qed

lemma options_loop_flag:
  "snd (snd (options_loop lines i k nl True)) = True"
proof (induction "length lines - i" arbitrary: i k nl)
  case 0
  then have "\<not> i < length lines" by simp
  then show ?case by (simp add: options_loop_done)
next
  case (Suc n)
  then have i: "i < length lines" and n: "n = length lines - (i + 1)" by simp_all
  let ?copy = "\<not> contains ''Gun::with_options('' (lines ! i) \<or>
         contains ''SecretKey::from_seed'' (join_nl (slice lines (i - 5) i)) \<or>
         re_search options_pattern (lines ! i) 0 = None"
  show ?case
  proof (cases ?copy)
    case True
    with i have "options_loop lines i k nl True = options_loop lines (i + 1) k (nl @ [lines ! i]) True"
      by (rule options_loop_copy)
    with Suc(1) [OF n] show ?thesis by simp
  next
    case False
    then obtain ms e where m: "re_search options_pattern (lines ! i) 0 = Some (ms, e)"
      by (cases "re_search options_pattern (lines ! i) 0") auto
    from False have g: "contains ''Gun::with_options('' (lines ! i)"
      and w: "\<not> contains ''SecretKey::from_seed'' (join_nl (slice lines (i - 5) i))"
      by simp_all
    show ?thesis
      unfolding options_loop_rewrite [OF i g w m]
      by (rule Suc(1) [OF n])
  qed
qed

lemma rewritten_call_line:
  assumes i: "i < length lines"
    and line: "lines ! i = a @ ''Gun::with_options(options).await'' @ b"
    and first: "\<not> contains ''Gun::with_options('' a"
    and near: "\<And>j. i - 5 \<le> j \<Longrightarrow> j < i \<Longrightarrow> \<not> contains ''SecretKey::from_seed'' (lines ! j)"
  shows "options_loop lines i k nl u =
         options_loop lines (i + 1) (k + 1)
           (nl @ [replicate (length (takeWhile is_space (lines ! i))) CHR '' '' @
                    ''let secret_key'' @ str_nat k @
                    '' = SecretKey::from_seed(&['' @ str_nat k @ ''u8; 32]);\<newline>'' @
                  replicate (length (takeWhile is_space (lines ! i))) CHR '' '' @
                    ''let public_key'' @ str_nat k @
                    '' = secret_key'' @ str_nat k @ ''.public_key();'',
                  a @ (''Gun::with_options(secret_key'' @ str_nat k @ '', public_key'' @ str_nat k @
                         '', options)'') @ ''.await'' @
                    str_replace ''Gun::with_options(options)''
                      (''Gun::with_options(secret_key'' @ str_nat k @ '', public_key'' @ str_nat k @
                         '', options)'') b])
           True"
proof -
  have g: "contains ''Gun::with_options('' (lines ! i)"
  proof -
    have "lines ! i = a @ ''Gun::with_options('' @ (''options).await'' @ b)"
      by (simp add: line)
    then show ?thesis unfolding contains_iff by blast
  qed
  have w: "\<not> contains ''SecretKey::from_seed'' (join_nl (slice lines (i - 5) i))"
    using i near by (simp add: window_contains)
  have m: "re_search options_pattern (lines ! i) 0 = Some ([length a + 18, length a + 25], length a + 26)"
    unfolding line using first by (rule call_line_search)
  have grp: "group (lines ! i) [length a + 18, length a + 25] 1 = ''options''"
    unfolding line by (rule call_line_group)
  have rep: "str_replace (''Gun::with_options('' @ ''options'' @ '')'') new (lines ! i) =
         a @ new @ ''.await'' @ str_replace ''Gun::with_options(options)'' new b" for new
    unfolding line using first by (rule call_line_replace)
  show ?thesis
    unfolding options_loop_rewrite [OF i g w m] grp rep rstrip_key_gen indent_takeWhile
    by simp
qed

text \<open>
  C2. Let the text split into the lines \<open>pre\<close>, then two lines that each hold a call
  \<^verbatim>\<open>Gun::with_options(options).await\<close> (the first call of its line), then \<open>post\<close>; no line
  of \<open>pre\<close> holds a call, and \<^verbatim>\<open>SecretKey::from_seed\<close> occurs neither in the last five
  lines of \<open>pre\<close> nor in the first of the two lines. Then the loop, started with the counter
  at 1, reaches the line after the two with the counter at 3, and has put before the first
  call the lines for \<^verbatim>\<open>secret_key1\<close> and \<^verbatim>\<open>public_key1\<close> with the seed \<^verbatim>\<open>[1u8; 32]\<close>,
  before the second those for \<^verbatim>\<open>secret_key2\<close> and \<^verbatim>\<open>public_key2\<close> with the seed
  \<^verbatim>\<open>[2u8; 32]\<close>, each indented by as many blanks as its call line has leading white
  space, and has rewritten the calls to
  \<^verbatim>\<open>Gun::with_options(secret_keyN, public_keyN, options)\<close>. The pass returns the lines
  joined again, with the flag set.
\<close>

theorem two_sequential_calls_numbered:
  assumes lines: "split_nl content = pre @ [l1, l2] @ post"
    and l1: "l1 = a1 @ ''Gun::with_options(options).await'' @ b1"
    and l2: "l2 = a2 @ ''Gun::with_options(options).await'' @ b2"
    and first1: "\<not> contains ''Gun::with_options('' a1"
    and first2: "\<not> contains ''Gun::with_options('' a2"
    and pre: "\<forall>l \<in> set pre. \<not> contains ''Gun::with_options('' l"
    and near: "\<forall>l \<in> set (drop (length pre - 5) pre @ [l1]). \<not> contains ''SecretKey::from_seed'' l"
    and out: "out = pre @
       [replicate (length (takeWhile is_space l1)) CHR '' '' @
          ''let secret_key1 = SecretKey::from_seed(&[1u8; 32]);\<newline>'' @
        replicate (length (takeWhile is_space l1)) CHR '' '' @
          ''let public_key1 = secret_key1.public_key();'',
        a1 @ ''Gun::with_options(secret_key1, public_key1, options).await'' @
          str_replace ''Gun::with_options(options)''
            ''Gun::with_options(secret_key1, public_key1, options)'' b1,
        replicate (length (takeWhile is_space l2)) CHR '' '' @
          ''let secret_key2 = SecretKey::from_seed(&[2u8; 32]);\<newline>'' @
        replicate (length (takeWhile is_space l2)) CHR '' '' @
          ''let public_key2 = secret_key2.public_key();'',
        a2 @ ''Gun::with_options(secret_key2, public_key2, options).await'' @
          str_replace ''Gun::with_options(options)''
            ''Gun::with_options(secret_key2, public_key2, options)'' b2]"
  shows "options_loop (split_nl content) 0 1 [] updated =
           options_loop (split_nl content) (length pre + 2) 3 out True \<and>
         (\<exists>rest. rewrite_options (content, updated) = (join_nl (out @ rest), True))"
proof -
  let ?lines = "split_nl content"
  let ?n = "length pre"
  have len: "length ?lines = ?n + 2 + length post"
    by (simp add: lines)
  have at_pre: "?lines ! j = pre ! j" if "j < ?n" for j
    using that by (simp add: lines nth_append)
  have at1: "?lines ! ?n = l1"
    by (simp add: lines nth_append)
  have at2: "?lines ! (?n + 1) = l2"
    by (simp add: lines nth_append)
  have near_pre: "\<not> contains ''SecretKey::from_seed'' (?lines ! j)" if "?n - 5 \<le> j" "j < ?n" for j
  proof -
    from that have "drop (?n - 5) pre ! (j - (?n - 5)) = pre ! j"
      and "j - (?n - 5) < length (drop (?n - 5) pre)"
      by simp_all
    then have "pre ! j \<in> set (drop (?n - 5) pre)"
      by (metis nth_mem)
    with near at_pre [OF that(2)] show ?thesis by simp
  qed
  have near_l1: "\<not> contains ''SecretKey::from_seed'' l1"
    using near by simp
  have s0: "options_loop ?lines 0 1 [] updated =
            options_loop ?lines ?n 1 ([] @ map (\<lambda>j. ?lines ! j) [0 ..< ?n]) updated"
  proof (rule options_loop_copy_range)
    show "?n \<le> length ?lines" by (simp add: len)
  next
    show "0 \<le> ?n" by simp
  next
    fix j assume "j < ?n"
    then show "\<not> contains ''Gun::with_options('' (?lines ! j)"
      using pre at_pre by simp
  qed
  have "map (\<lambda>j. ?lines ! j) [0 ..< ?n] = map (\<lambda>j. pre ! j) [0 ..< ?n]"
    using at_pre by simp
  then have pre_eq: "map (\<lambda>j. ?lines ! j) [0 ..< ?n] = pre"
    by (simp add: map_nth)
  let ?K1 = "replicate (length (takeWhile is_space l1)) CHR '' '' @
          ''let secret_key1 = SecretKey::from_seed(&[1u8; 32]);\<newline>'' @
        replicate (length (takeWhile is_space l1)) CHR '' '' @
          ''let public_key1 = secret_key1.public_key();''"
  let ?R1 = "a1 @ ''Gun::with_options(secret_key1, public_key1, options).await'' @
          str_replace ''Gun::with_options(options)''
            ''Gun::with_options(secret_key1, public_key1, options)'' b1"
  let ?K2 = "replicate (length (takeWhile is_space l2)) CHR '' '' @
          ''let secret_key2 = SecretKey::from_seed(&[2u8; 32]);\<newline>'' @
        replicate (length (takeWhile is_space l2)) CHR '' '' @
          ''let public_key2 = secret_key2.public_key();''"
  let ?R2 = "a2 @ ''Gun::with_options(secret_key2, public_key2, options).await'' @
          str_replace ''Gun::with_options(options)''
            ''Gun::with_options(secret_key2, public_key2, options)'' b2"
  have s1: "options_loop ?lines ?n 1 pre updated =
            options_loop ?lines (?n + 1) 2 (pre @ [?K1, ?R1]) True"
  proof -
    have h: "?n < length ?lines" by (simp add: len)
    have r: "?lines ! ?n = a1 @ ''Gun::with_options(options).await'' @ b1"
      using at1 l1 by simp
    have w: "\<not> contains ''SecretKey::from_seed'' (?lines ! j)"
      if "?n - 5 \<le> j" "j < ?n" for j
      using that by (rule near_pre)
    from rewritten_call_line [OF h r first1 w, of 1 pre updated, unfolded at1 str_nat_1]
    show ?thesis by (simp add: numeral_2_eq_2)
  qed
  have s2: "options_loop ?lines (?n + 1) 2 (pre @ [?K1, ?R1]) True =
            options_loop ?lines (?n + 2) 3 (pre @ [?K1, ?R1, ?K2, ?R2]) True"
  proof -
    have h: "?n + 1 < length ?lines" by (simp add: len)
    have r: "?lines ! (?n + 1) = a2 @ ''Gun::with_options(options).await'' @ b2"
      using at2 l2 by simp
    have w: "\<not> contains ''SecretKey::from_seed'' (?lines ! j)"
      if "?n + 1 - 5 \<le> j" "j < ?n + 1" for j
    proof (cases "j < ?n")
      case True
      with that show ?thesis by (intro near_pre) simp_all
    next
      case False
      with that have "j = ?n" by simp
      with at1 near_l1 show ?thesis by simp
    qed
    from rewritten_call_line [OF h r first2 w, of 2 "pre @ [?K1, ?R1]" True, unfolded at2 str_nat_2]
    show ?thesis by (simp add: numeral_2_eq_2 numeral_3_eq_3)
  qed
  have loop: "options_loop ?lines 0 1 [] updated = options_loop ?lines (?n + 2) 3 out True"
    using s0 pre_eq s1 s2 out by simp
  let ?r = "options_loop ?lines (?n + 2) 3 [] True"
  have acc: "options_loop ?lines (?n + 2) 3 out True = (out @ fst ?r, fst (snd ?r), True)"
    using options_loop_acc [of ?lines "?n + 2" 3 out True]
      options_loop_flag [of ?lines "?n + 2" 3 "[]"]
    by (metis prod.collapse)
  have "contains ''Gun::with_options('' (join_nl ?lines)"
  proof -
    have "l1 = a1 @ ''Gun::with_options('' @ (''options).await'' @ b1)"
      by (simp add: l1)
    then have "contains ''Gun::with_options('' l1"
      unfolding contains_iff by blast
    moreover have "l1 \<in> set ?lines" by (simp add: lines)
    ultimately have "\<exists>l \<in> set ?lines. contains ''Gun::with_options('' l" by blast
    then show ?thesis by (subst contains_join_nl) simp_all
  qed
  then have "contains ''Gun::with_options('' content" by simp
  then have "rewrite_options (content, updated) =
      (let (new_lines, key_counter, updated) = options_loop ?lines 0 1 [] updated
       in if updated then (join_nl new_lines, updated) else (content, updated))"
    by (simp only: rewrite_options_def prod.case if_True)
  also have "\<dots> = (join_nl (out @ fst ?r), True)"
    unfolding loop acc by simp
  finally have "rewrite_options (content, updated) = (join_nl (out @ fst ?r), True)" .
  with loop show ?thesis by blast
qed

theorem two_sequential_calls_numbered_witness:
  "options_loop
     (split_nl ''  let g1 = Gun::with_options(options).await?;\<newline>  let g2 = Gun::with_options(options).await?;'')
     0 1 [] False =
   ([''  let secret_key1 = SecretKey::from_seed(&[1u8; 32]);\<newline>  let public_key1 = secret_key1.public_key();'',
     ''  let g1 = Gun::with_options(secret_key1, public_key1, options).await?;'',
     ''  let secret_key2 = SecretKey::from_seed(&[2u8; 32]);\<newline>  let public_key2 = secret_key2.public_key();'',
     ''  let g2 = Gun::with_options(secret_key2, public_key2, options).await?;''],
    3, True)"
proof -
  let ?content = "''  let g1 = Gun::with_options(options).await?;\<newline>  let g2 = Gun::with_options(options).await?;''"
  let ?l1 = "''  let g1 = Gun::with_options(options).await?;''"
  let ?l2 = "''  let g2 = Gun::with_options(options).await?;''"
  let ?out = "[] @
       [replicate (length (takeWhile is_space ?l1)) CHR '' '' @
          ''let secret_key1 = SecretKey::from_seed(&[1u8; 32]);\<newline>'' @
        replicate (length (takeWhile is_space ?l1)) CHR '' '' @
          ''let public_key1 = secret_key1.public_key();'',
        ''  let g1 = '' @ ''Gun::with_options(secret_key1, public_key1, options).await'' @
          str_replace ''Gun::with_options(options)''
            ''Gun::with_options(secret_key1, public_key1, options)'' ''?;'',
        replicate (length (takeWhile is_space ?l2)) CHR '' '' @
          ''let secret_key2 = SecretKey::from_seed(&[2u8; 32]);\<newline>'' @
        replicate (length (takeWhile is_space ?l2)) CHR '' '' @
          ''let public_key2 = secret_key2.public_key();'',
        ''  let g2 = '' @ ''Gun::with_options(secret_key2, public_key2, options).await'' @
          str_replace ''Gun::with_options(options)''
            ''Gun::with_options(secret_key2, public_key2, options)'' ''?;'']"
  have 1: "split_nl ?content = [] @ [?l1, ?l2] @ []" by code_simp
  have 2: "?l1 = ''  let g1 = '' @ ''Gun::with_options(options).await'' @ ''?;''" by simp
  have 3: "?l2 = ''  let g2 = '' @ ''Gun::with_options(options).await'' @ ''?;''" by simp
  have 4: "\<not> contains ''Gun::with_options('' ''  let g1 = ''" by code_simp
  have 5: "\<not> contains ''Gun::with_options('' ''  let g2 = ''" by code_simp
  have 6: "\<forall>l \<in> set ([] :: string list). \<not> contains ''Gun::with_options('' l" by simp
  have "\<not> contains ''SecretKey::from_seed'' ?l1" by code_simp
  then have 7: "\<forall>l \<in> set (drop (length ([] :: string list) - 5) [] @ [?l1]).
      \<not> contains ''SecretKey::from_seed'' l" by simp
  have 8: "?out = ?out" by (rule refl)
  from two_sequential_calls_numbered [OF 1 2 3 4 5 6 7 8, of False]
  have "options_loop (split_nl ?content) 0 1 [] False =
        options_loop (split_nl ?content) (length ([] :: string list) + 2) 3 ?out True"
    by (rule conjunct1)
  also have "\<dots> =
   ([''  let secret_key1 = SecretKey::from_seed(&[1u8; 32]);\<newline>  let public_key1 = secret_key1.public_key();'',
     ''  let g1 = Gun::with_options(secret_key1, public_key1, options).await?;'',
     ''  let secret_key2 = SecretKey::from_seed(&[2u8; 32]);\<newline>  let public_key2 = secret_key2.public_key();'',
     ''  let g2 = Gun::with_options(secret_key2, public_key2, options).await?;''],
    3, True)"
    by code_simp
  finally show ?thesis .
qed

section \<open>The matcher on the patterns of the script\<close>

text \<open>
  A repetition followed by items that cannot start with a character of its class never
  gives a character back: it takes the longest run and goes on from there.
\<close>

fun blocked :: "(char \<Rightarrow> bool) \<Rightarrow> tok list \<Rightarrow> bool" where
  "blocked P [] = False"
| "blocked P (Mark # ts) = blocked P ts"
| "blocked P (Lit l # ts) = (case l of [] \<Rightarrow> blocked P ts | x # xs \<Rightarrow> \<not> P x)"
| "blocked P (Rep mn c # ts) = ((\<forall>x. P x \<longrightarrow> \<not> in_cset c x) \<and> (0 < mn \<or> blocked P ts))"

lemma blocked_run:
  "blocked P ts \<Longrightarrow> s \<noteq> [] \<Longrightarrow> P (hd s) \<Longrightarrow> run ts s n = None"
proof (induction ts arbitrary: n)
  case Nil
  then show ?case by simp
next
  case (Cons t ts)
  show ?case
  proof (cases t)
    case (Lit l)
    show ?thesis
    proof (cases l)
      case Nil
      with Cons Lit show ?thesis by (simp add: startswith_def)
    next
      case (Cons x xs)
      with Cons.prems Lit have "\<not> startswith l s"
        by (cases s) (auto simp: startswith_def)
      with Lit show ?thesis by simp
    qed
  next
    case (Rep mn c)
    with Cons.prems have no: "\<not> in_cset c (hd s)" and rest: "0 < mn \<or> blocked P ts"
      by auto
    from no Cons.prems(2) have tw: "takeWhile (in_cset c) s = []"
      by (cases s) auto
    show ?thesis
    proof (cases "0 < mn")
      case True
      with tw Rep show ?thesis by simp
    next
      case False
      with rest have "blocked P ts" by simp
      from Cons.IH [OF this Cons.prems(2,3)] False tw Rep show ?thesis by simp
    qed
  next
    case Mark
    with Cons show ?thesis by simp
  qed
qed

lemma first_some_all_None:
  "\<forall>x \<in> set xs. x = None \<Longrightarrow> first_some xs = None"
  by (induction xs) auto

lemma run_Rep_det:
  assumes "blocked (in_cset c) ts"
  shows "run (Rep mn c # ts) s n =
         (if mn \<le> length (takeWhile (in_cset c) s)
          then run ts (dropWhile (in_cset c) s) (n + length (takeWhile (in_cset c) s))
          else None)"
proof (cases "mn \<le> length (takeWhile (in_cset c) s)")
  case False
  then show ?thesis by simp
next
  case True
  let ?k = "length (takeWhile (in_cset c) s)"
  have upt: "rev [mn ..< Suc ?k] = ?k # rev [mn ..< ?k]"
    using True by simp
  have none: "run ts (drop j s) (n + j) = None" if "j < ?k" for j
  proof (rule blocked_run [OF assms])
    from that have "j < length s"
      using length_takeWhile_le [of "in_cset c" s] by simp
    then show "drop j s \<noteq> []" by simp
    from that have "in_cset c (takeWhile (in_cset c) s ! j)"
      using nth_mem set_takeWhileD by metis
    with that have "in_cset c (s ! j)"
      by (simp add: takeWhile_nth)
    with \<open>j < length s\<close> show "in_cset c (hd (drop j s))"
      by (simp add: hd_drop_conv_nth)
  qed
  have "first_some (map (\<lambda>j. run ts (drop j s) (n + j)) (rev [mn ..< ?k])) = None"
    by (rule first_some_all_None) (auto simp: none)
  then have "run (Rep mn c # ts) s n = run ts (drop ?k s) (n + ?k)"
    by (simp only: run.simps upt list.map first_some.simps split: option.splits) simp
  with True show ?thesis
    by (simp add: dropWhile_eq_drop)
qed

text \<open>The texts a pattern can match, and the soundness of the matcher for them.\<close>

fun lang :: "tok list \<Rightarrow> string \<Rightarrow> bool" where
  "lang [] m = (m = [])"
| "lang (Mark # ts) m = lang ts m"
| "lang (Lit l # ts) m = (\<exists>m'. m = l @ m' \<and> lang ts m')"
| "lang (Rep mn c # ts) m =
     (\<exists>w m'. m = w @ m' \<and> (\<forall>x \<in> set w. in_cset c x) \<and> mn \<le> length w \<and> lang ts m')"

lemma run_sound:
  "run ts s n = Some (ms, e) \<Longrightarrow> \<exists>m r. s = m @ r \<and> e = n + length m \<and> lang ts m"
proof (induction ts s n arbitrary: ms e rule: run.induct)
  case (1 s n)
  then show ?case by simp
next
  case (2 ts s n)
  from 2(2) obtain ms2 where "run ts s n = Some (ms2, e)"
    by (cases "run ts s n") auto
  from 2(1) [OF this] show ?case by simp
next
  case (3 l ts s n)
  from 3(2) have sw: "startswith l s"
    by (simp split: if_splits)
  with 3(2) have r: "run ts (drop (length l) s) (n + length l) = Some (ms, e)"
    by simp
  from 3(1) [OF sw r] obtain m r where m: "drop (length l) s = m @ r"
    "e = n + length l + length m" "lang ts m"
    by auto
  from sw have "take (length l) s = l"
    by (simp add: startswith_def)
  then have "s = l @ drop (length l) s"
    by (metis append_take_drop_id)
  with m(1) have "s = (l @ m) @ r" by simp
  moreover from m(2) have "e = n + length (l @ m)" by simp
  moreover from m(3) have "lang (Lit l # ts) (l @ m)" by auto
  ultimately show ?case by blast
next
  case (4 mn c ts s n)
  let ?js = "rev [mn ..< Suc (length (takeWhile (in_cset c) s))]"
  from 4(2) have "first_some (map (\<lambda>j. run ts (drop j s) (n + j)) ?js) = Some (ms, e)"
    by (simp only: run.simps)
  then have "Some (ms, e) \<in> set (map (\<lambda>j. run ts (drop j s) (n + j)) ?js)"
    by (rule first_some_SomeD)
  then obtain j where j: "j \<in> set ?js"
    and r: "Some (ms, e) = run ts (drop j s) (n + j)"
    unfolding set_map by blast
  from j have jm: "mn \<le> j" and jk: "j \<le> length (takeWhile (in_cset c) s)"
    by auto
  from 4(1) [OF j r [symmetric]] obtain m r where m: "drop j s = m @ r"
    "e = n + j + length m" "lang ts m"
    by auto
  have "take j s = take j (takeWhile (in_cset c) s @ dropWhile (in_cset c) s)"
    by simp
  also have "\<dots> = take j (takeWhile (in_cset c) s)"
    using jk by (simp del: takeWhile_dropWhile_id)
  finally have "set (take j s) \<subseteq> set (takeWhile (in_cset c) s)"
    by (simp add: set_take_subset)
  then have all: "\<forall>x \<in> set (take j s). in_cset c x"
    by (auto dest: set_takeWhileD)
  from jk have len: "length (take j s) = j"
    using length_takeWhile_le [of "in_cset c" s] by simp
  have "s = take j s @ drop j s" by simp
  with m(1) have "s = (take j s @ m) @ r"
    by simp
  moreover have "e = n + length (take j s @ m)"
    using m(2) len by simp
  moreover have "lang (Rep mn c # ts) (take j s @ m)"
  proof -
    have "take j s @ m = take j s @ m \<and> (\<forall>x \<in> set (take j s). in_cset c x) \<and>
        mn \<le> length (take j s) \<and> lang ts m"
      using all jm len m(3) by simp
    then show ?thesis
      unfolding lang.simps by blast
  qed
  ultimately show ?case by blast
qed

definition ws :: "string \<Rightarrow> bool" where
  "ws w = (\<forall>c \<in> set w. is_space c)"

definition wd :: "string \<Rightarrow> bool" where
  "wd v = (\<forall>c \<in> set v. is_word c)"

lemma in_cset_Space [simp]: "in_cset Space = is_space"
  by (rule ext) simp

lemma in_cset_WordCh [simp]: "in_cset WordCh = is_word"
  by (rule ext) simp

lemma space_not_word: "is_space c \<Longrightarrow> \<not> is_word c"
  by (auto simp: is_space_def is_word_def Let_def)

lemma takeWhile_run [simp]:
  "\<forall>x \<in> set w. P x \<Longrightarrow> \<not> P c \<Longrightarrow> takeWhile P (w @ c # r) = w"
  by (induction w) auto

lemma dropWhile_run [simp]:
  "\<forall>x \<in> set w. P x \<Longrightarrow> \<not> P c \<Longrightarrow> dropWhile P (w @ c # r) = c # r"
  by (induction w) auto

lemma word_not_space: "is_word c \<Longrightarrow> \<not> is_space c"
  using space_not_word by blast

lemma not_space_chars [simp]:
  "\<not> is_space CHR ''l''" "\<not> is_space CHR ''g''" "\<not> is_space CHR ''=''"
  "\<not> is_space CHR ''G''" "\<not> is_space CHR ''A''" "\<not> is_space CHR '';''"
  "\<not> is_space CHR ''/''"
  by (simp_all add: is_space_def)

lemma not_word_chars [simp]:
  "\<not> is_word CHR ''=''" "\<not> is_word CHR '';''" "\<not> is_word CHR ''/''"
  "\<not> is_word CHR ''(''" "\<not> is_word CHR '')''"
  by (simp_all add: is_word_def)

lemma takeWhile_run2 [simp]:
  "\<forall>x \<in> set v. P x \<Longrightarrow> \<forall>x \<in> set w. \<not> P x \<Longrightarrow> \<not> P c \<Longrightarrow>
   takeWhile P (v @ w @ c # r) = v"
  by (induction v) (auto simp: takeWhile_eq_Nil_iff, metis hd_append2 list.sel(1) hd_in_set hd_append)

lemma dropWhile_run2 [simp]:
  "\<forall>x \<in> set v. P x \<Longrightarrow> \<forall>x \<in> set w. \<not> P x \<Longrightarrow> \<not> P c \<Longrightarrow>
   dropWhile P (v @ w @ c # r) = w @ c # r"
  by (induction v) (auto simp: dropWhile_eq_self_iff, metis hd_append2 list.sel(1) hd_in_set hd_append)

definition bare_stmt :: "string \<Rightarrow> string \<Rightarrow> string \<Rightarrow> string" where
  "bare_stmt w2 w3 w4 = ''let'' @ w2 @ ''gun'' @ w3 @ ''='' @ w4"

definition arc_stmt :: "string \<Rightarrow> string \<Rightarrow> string \<Rightarrow> string \<Rightarrow> string" where
  "arc_stmt w2 v w3 w4 = ''let'' @ w2 @ v @ w3 @ ''='' @ w4 @ ''Arc::new(''"

definition key_block :: "string \<Rightarrow> string \<Rightarrow> string \<Rightarrow> string" where
  "key_block w g t =
     w @ ''// Generate BLS key pair\<newline>'' @
     w @ ''let secret_key = SecretKey::from_seed(&[0u8; 32]);\<newline>'' @
     w @ ''let public_key = secret_key.public_key();\<newline>'' @
     w @ g @ t"

lemma pattern_shape:
  assumes "run pattern s n = Some (ms, e)"
  shows "\<exists>w1 w2 w3 w4 r. s = w1 @ bare_stmt w2 w3 w4 @ ''Gun::new();'' @ r \<and>
           ws w1 \<and> w1 \<noteq> [] \<and> ws w2 \<and> w2 \<noteq> [] \<and> ws w3 \<and> ws w4"
proof -
  from run_sound [OF assms] obtain m r where s: "s = m @ r" and l: "lang pattern m"
    by blast
  from l obtain w1 w2 w3 w4 where
    "m = w1 @ ''let'' @ w2 @ ''gun'' @ w3 @ ''='' @ w4 @ ''Gun::new();''"
    "ws w1" "1 \<le> length w1" "ws w2" "1 \<le> length w2" "ws w3" "ws w4"
    unfolding pattern_def ws_def by (auto simp del: append_assoc)
  with s have "s = w1 @ bare_stmt w2 w3 w4 @ ''Gun::new();'' @ r \<and>
           ws w1 \<and> w1 \<noteq> [] \<and> ws w2 \<and> w2 \<noteq> [] \<and> ws w3 \<and> ws w4"
    by (auto simp: bare_stmt_def)
  then show ?thesis by blast
qed

lemma blocked_Mark: "blocked P (Mark # ts) = blocked P ts"
  by simp

lemma blocked_Lit: "blocked P (Lit (x # xs) # ts) = (\<not> P x)"
  by simp

lemma blocked_space_word: "0 < mn \<Longrightarrow> blocked is_space (Rep mn WordCh # ts)"
  by (simp add: space_not_word)

lemma blocked_word_space: "blocked is_word ts \<Longrightarrow> blocked is_word (Rep mn Space # ts)"
  by (simp add: word_not_space)

lemmas blocked_rules = blocked_Mark blocked_Lit blocked_space_word blocked_word_space

declare blocked.simps [simp del]

lemma length_bare_stmt:
  "length (bare_stmt w2 w3 w4) = 7 + length w2 + length w3 + length w4"
  by (simp add: bare_stmt_def)

lemma pattern_run:
  assumes "ws w1" "w1 \<noteq> []" "ws w2" "w2 \<noteq> []" "ws w3" "ws w4"
  shows "run pattern (w1 @ bare_stmt w2 w3 w4 @ ''Gun::new();'' @ r) n =
         Some ([n, n + length w1, n + length w1, n + length w1 + length (bare_stmt w2 w3 w4)],
               n + length w1 + length (bare_stmt w2 w3 w4) + 11)"
proof -
  from assms(2,4) have "1 \<le> length w1" "1 \<le> length w2"
    by (simp_all add: Suc_le_eq)
  with assms(1,3,5,6) show ?thesis
    by (simp add: pattern_def bare_stmt_def run_Rep_det blocked_rules startswith_def ws_def
        add.assoc)
qed

lemma step_Lit: "run (Lit l # ts) (l @ r) n = run ts r (n + length l)"
  by (simp add: startswith_def)

lemma step_Rep:
  assumes "blocked (in_cset c) ts" and "\<forall>x \<in> set w. in_cset c x" and "mn \<le> length w"
    and "r = [] \<or> \<not> in_cset c (hd r)"
  shows "run (Rep mn c # ts) (w @ r) n = run ts r (n + length w)"
proof -
  from assms(2,4) have "takeWhile (in_cset c) (w @ r) = w"
    by (cases r) (simp_all add: takeWhile_append)
  moreover from assms(2,4) have "dropWhile (in_cset c) (w @ r) = r"
    by (cases r) (simp_all add: dropWhile_append)
  ultimately show ?thesis
    using assms(3) by (simp only: run_Rep_det [OF assms(1)] if_True)
qed

lemma step_Mark:
  "run ts s n = Some (ms, e) \<Longrightarrow> run (Mark # ts) s n = Some (n # ms, e)"
  by simp

lemma pattern_shape_arc:
  assumes "run pattern2 s n = Some (ms, e)"
  shows "\<exists>w1 w2 v w3 w4 r. s = w1 @ arc_stmt w2 v w3 w4 @ ''Gun::new());'' @ r \<and>
           ws w1 \<and> w1 \<noteq> [] \<and> ws w2 \<and> w2 \<noteq> [] \<and> wd v \<and> v \<noteq> [] \<and> ws w3 \<and> ws w4"
proof -
  from run_sound [OF assms] obtain m r where s: "s = m @ r" and l: "lang pattern2 m"
    by blast
  from l obtain w1 w2 v w3 w4 where
    "m = w1 @ ''let'' @ w2 @ v @ w3 @ ''='' @ w4 @ ''Arc::new('' @ ''Gun::new());''"
    "ws w1" "1 \<le> length w1" "ws w2" "1 \<le> length w2" "wd v" "1 \<le> length v" "ws w3" "ws w4"
    unfolding pattern2_def ws_def wd_def by (auto simp del: append_assoc)
  with s have "s = w1 @ arc_stmt w2 v w3 w4 @ ''Gun::new());'' @ r \<and>
           ws w1 \<and> w1 \<noteq> [] \<and> ws w2 \<and> w2 \<noteq> [] \<and> wd v \<and> v \<noteq> [] \<and> ws w3 \<and> ws w4"
    by (auto simp: arc_stmt_def)
  then show ?thesis by blast
qed

lemma length_arc_stmt:
  "length (arc_stmt w2 v w3 w4) = 13 + length w2 + length v + length w3 + length w4"
  by (simp add: arc_stmt_def)

lemma pattern2_run:
  assumes "ws w1" "w1 \<noteq> []" "ws w2" "w2 \<noteq> []" "wd v" "v \<noteq> []" "ws w3" "ws w4"
  shows "run pattern2 (w1 @ arc_stmt w2 v w3 w4 @ ''Gun::new());'' @ r) n =
         Some ([n, n + length w1, n + length w1, n + length w1 + length (arc_stmt w2 v w3 w4)],
               n + length w1 + length (arc_stmt w2 v w3 w4) + 12)"
proof -
  let ?G = "''Gun::new());''"
  let ?A = "''Arc::new(''"
  let ?p6 = "[Lit ?A, Mark, Lit ?G]"
  let ?p5 = "Rep 0 Space # ?p6"
  let ?p4 = "Lit ''='' # ?p5"
  let ?p3 = "Rep 0 Space # ?p4"
  let ?p2 = "Rep 1 WordCh # ?p3"
  let ?p1 = "Rep 1 Space # ?p2"
  let ?p0 = "Lit ''let'' # ?p1"
  have hv: "\<not> is_space (hd v)"
    using assms(5,6) by (auto simp: wd_def dest: word_not_space)
  have hw3: "w3 \<noteq> [] \<Longrightarrow> \<not> is_word (hd w3)"
    using assms(7) by (auto simp: ws_def dest: space_not_word)
  have r6: "run ?p6 (?A @ ?G @ r) k = Some ([k + 9], k + 21)" for k
    by (simp add: startswith_def)
  have r5: "run ?p5 (w4 @ ?A @ ?G @ r) k = Some ([k + length w4 + 9], k + length w4 + 21)" for k
  proof -
    have "run ?p5 (w4 @ (?A @ ?G @ r)) k = run ?p6 (?A @ ?G @ r) (k + length w4)"
      using assms(8) by (intro step_Rep) (simp_all add: blocked_rules ws_def)
    then show ?thesis unfolding r6 by simp
  qed
  have r4: "run ?p4 (''='' @ w4 @ ?A @ ?G @ r) k =
      Some ([k + 1 + length w4 + 9], k + 1 + length w4 + 21)" for k
    unfolding step_Lit r5 by simp
  have r3: "run ?p3 (w3 @ ''='' @ w4 @ ?A @ ?G @ r) k =
      Some ([k + length w3 + 1 + length w4 + 9], k + length w3 + 1 + length w4 + 21)" for k
  proof -
    have "run ?p3 (w3 @ (''='' @ w4 @ ?A @ ?G @ r)) k = run ?p4 (''='' @ w4 @ ?A @ ?G @ r) (k + length w3)"
      using assms(7) by (intro step_Rep) (simp_all add: blocked_rules ws_def)
    then show ?thesis unfolding r4 by simp
  qed
  have r2: "run ?p2 (v @ w3 @ ''='' @ w4 @ ?A @ ?G @ r) k =
      Some ([k + length v + length w3 + 1 + length w4 + 9],
            k + length v + length w3 + 1 + length w4 + 21)" for k
  proof -
    have "run ?p2 (v @ (w3 @ ''='' @ w4 @ ?A @ ?G @ r)) k =
          run ?p3 (w3 @ ''='' @ w4 @ ?A @ ?G @ r) (k + length v)"
      using assms(5,6) hw3
      by (intro step_Rep) (auto simp: blocked_rules wd_def Suc_le_eq hd_append)
    then show ?thesis unfolding r3 by simp
  qed
  have r1: "run ?p1 (w2 @ v @ w3 @ ''='' @ w4 @ ?A @ ?G @ r) k =
      Some ([k + length w2 + length v + length w3 + 1 + length w4 + 9],
            k + length w2 + length v + length w3 + 1 + length w4 + 21)" for k
  proof -
    have "run ?p1 (w2 @ (v @ w3 @ ''='' @ w4 @ ?A @ ?G @ r)) k =
          run ?p2 (v @ w3 @ ''='' @ w4 @ ?A @ ?G @ r) (k + length w2)"
      using assms(3,4,6) hv
      by (intro step_Rep) (auto simp: blocked_rules ws_def Suc_le_eq)
    then show ?thesis unfolding r2 by simp
  qed
  have r0: "run ?p0 (''let'' @ w2 @ v @ w3 @ ''='' @ w4 @ ?A @ ?G @ r) k =
      Some ([k + 3 + length w2 + length v + length w3 + 1 + length w4 + 9],
            k + 3 + length w2 + length v + length w3 + 1 + length w4 + 21)" for k
    unfolding step_Lit r1 by simp
  have top: "run (Rep 1 Space # Mark # Mark # ?p0)
        (w1 @ (''let'' @ w2 @ v @ w3 @ ''='' @ w4 @ ?A @ ?G @ r)) n =
      run (Mark # Mark # ?p0) (''let'' @ w2 @ v @ w3 @ ''='' @ w4 @ ?A @ ?G @ r) (n + length w1)"
    using assms(1,2)
    by (intro step_Rep) (auto simp: blocked_rules ws_def Suc_le_eq)
  have "run pattern2 (w1 @ (''let'' @ w2 @ v @ w3 @ ''='' @ w4 @ ?A @ ?G @ r)) n =
      Some ([n, n + length w1, n + length w1,
             n + length w1 + 3 + length w2 + length v + length w3 + 1 + length w4 + 9],
            n + length w1 + 3 + length w2 + length v + length w3 + 1 + length w4 + 21)"
    unfolding pattern2_def run.simps(2) top r0 by simp
  then show ?thesis
    by (simp add: arc_stmt_def)
qed

lemma expand_replacement:
  "w1 \<noteq> [] \<Longrightarrow>
   expand replacement (w1 @ g @ t) [0, length w1, length w1, length w1 + length g] =
   key_block w1 g ''Gun::new(secret_key, public_key);''"
  by (simp add: replacement_def group_def slice_def key_block_def)

lemma expand_replacement2:
  "w1 \<noteq> [] \<Longrightarrow>
   expand replacement2 (w1 @ g @ t) [0, length w1, length w1, length w1 + length g] =
   key_block w1 g ''Gun::new(secret_key, public_key));''"
  by (simp add: replacement2_def group_def slice_def key_block_def)

text \<open>
  A match cannot begin before a run of white space that follows a character other than
  white space and reach into or beyond that run, when the run is followed by \<^verbatim>\<open>let\<close>:
  the blocks of the matched text are aligned one after the other against the text.
\<close>

definition edge :: "string \<Rightarrow> bool" where
  "edge us = (us = [] \<or> \<not> is_space (last us))"

lemma sf_step:
  assumes eq: "us @ w @ rest = B @ rest'"
    and w: "ws w" "w \<noteq> []"
    and B: "\<forall>x \<in> set B. \<not> is_space x"
    and us: "edge us"
  shows "\<exists>us'. us = B @ us' \<and> edge us' \<and> us' @ w @ rest = rest'"
proof -
  from append_eq_append_conv2 [THEN iffD1, OF eq]
  obtain t0 where t0: "us = B @ t0 \<and> t0 @ w @ rest = rest' \<or> us @ t0 = B \<and> w @ rest = t0 @ rest'"
    by blast
  then consider t where "us = B @ t" "t @ w @ rest = rest'"
    | t where "us @ t = B" "w @ rest = t @ rest'" "t \<noteq> []"
  proof (cases "t0 = []")
    case True
    with t0 have "us = B @ []" "[] @ w @ rest = rest'" by auto
    then show ?thesis using that(1) by blast
  next
    case False
    with t0 that show ?thesis by blast
  qed
  then show ?thesis
  proof cases
    case 1
    with us have "edge t" by (auto simp: edge_def)
    with 1 show ?thesis by blast
  next
    case 2
    from 2(2,3) w(2) have "hd t = hd w"
      by (metis hd_append2)
    moreover from w have "is_space (hd w)" by (simp add: ws_def)
    moreover from 2(1,3) have "hd t \<in> set B" by (metis hd_in_set in_set_conv_decomp_first list.set_sel(1) Un_iff set_append)
    ultimately show ?thesis using B by auto
  qed
qed

lemma ws_step:
  assumes eq: "us @ w @ c # rest = W @ d # rest'"
    and w: "ws w" "w \<noteq> []"
    and W: "ws W"
    and c: "\<not> is_space c" and d: "\<not> is_space d"
    and ne: "us \<noteq> [] \<or> c \<noteq> d"
    and us: "edge us"
  shows "\<exists>us'. us = W @ us' \<and> us' \<noteq> [] \<and> edge us' \<and> us' @ w @ c # rest = d # rest'"
proof -
  from append_eq_append_conv2 [THEN iffD1, OF eq]
  consider t where "us = W @ t" "t @ w @ c # rest = d # rest'"
    | t where "us @ t = W" "w @ c # rest = t @ d # rest'"
    by blast
  then show ?thesis
  proof cases
    case 1
    have "t \<noteq> []"
    proof
      assume "t = []"
      with 1(2) w(2) have "hd w = d" by (metis append_Nil hd_append2 list.sel(1))
      moreover from w have "is_space (hd w)" by (simp add: ws_def)
      ultimately show False using d by simp
    qed
    moreover with 1(1) us have "edge t" by (auto simp: edge_def)
    ultimately show ?thesis using 1 by blast
  next
    case 2
    have "us = []"
    proof (rule ccontr)
      assume n: "us \<noteq> []"
      with 2(1) have "last us \<in> set W" by (metis last_in_set Un_iff set_append)
      with W have "is_space (last us)" by (simp add: ws_def)
      with us n show False by (simp add: edge_def)
    qed
    with 2 have "w @ c # rest = W @ d # rest'" by simp
    then have "takeWhile is_space (w @ c # rest) = takeWhile is_space (W @ d # rest')"
      and "dropWhile is_space (w @ c # rest) = dropWhile is_space (W @ d # rest')"
      by simp_all
    with w W c d have "c = d"
      by (simp add: ws_def)
    with ne \<open>us = []\<close> show ?thesis by simp
  qed
qed

lemma pattern_end:
  assumes "run pattern s n = Some (ms, e)"
  shows "\<exists>w1 w2 w3 w4 r. s = w1 @ bare_stmt w2 w3 w4 @ ''Gun::new();'' @ r \<and>
           ws w1 \<and> w1 \<noteq> [] \<and> ws w2 \<and> w2 \<noteq> [] \<and> ws w3 \<and> ws w4 \<and>
           ms = [n, n + length w1, n + length w1, n + length w1 + length (bare_stmt w2 w3 w4)] \<and>
           e = n + length w1 + length (bare_stmt w2 w3 w4) + 11"
proof -
  from pattern_shape [OF assms] obtain w1 w2 w3 w4 r where
    s: "s = w1 @ bare_stmt w2 w3 w4 @ ''Gun::new();'' @ r"
    and w: "ws w1" "w1 \<noteq> []" "ws w2" "w2 \<noteq> []" "ws w3" "ws w4"
    by blast
  from pattern_run [OF w, of r n] assms s
  have "ms = [n, n + length w1, n + length w1, n + length w1 + length (bare_stmt w2 w3 w4)]"
    and "e = n + length w1 + length (bare_stmt w2 w3 w4) + 11"
    by simp_all
  with s w show ?thesis by blast
qed

lemma pattern2_end:
  assumes "run pattern2 s n = Some (ms, e)"
  shows "\<exists>w1 w2 v w3 w4 r. s = w1 @ arc_stmt w2 v w3 w4 @ ''Gun::new());'' @ r \<and>
           ws w1 \<and> w1 \<noteq> [] \<and> ws w2 \<and> w2 \<noteq> [] \<and> wd v \<and> v \<noteq> [] \<and> ws w3 \<and> ws w4 \<and>
           ms = [n, n + length w1, n + length w1, n + length w1 + length (arc_stmt w2 v w3 w4)] \<and>
           e = n + length w1 + length (arc_stmt w2 v w3 w4) + 12"
proof -
  from pattern_shape_arc [OF assms] obtain w1 w2 v w3 w4 r where
    s: "s = w1 @ arc_stmt w2 v w3 w4 @ ''Gun::new());'' @ r"
    and w: "ws w1" "w1 \<noteq> []" "ws w2" "w2 \<noteq> []" "wd v" "v \<noteq> []" "ws w3" "ws w4"
    by blast
  from pattern2_run [OF w, of r n] assms s
  have "ms = [n, n + length w1, n + length w1, n + length w1 + length (arc_stmt w2 v w3 w4)]"
    and "e = n + length w1 + length (arc_stmt w2 v w3 w4) + 12"
    by simp_all
  with s w show ?thesis by blast
qed

lemma edge_last: "u \<noteq> [] \<Longrightarrow> \<not> is_space (last u) \<Longrightarrow> edge u"
  by (simp add: edge_def)

lemma bare_no_straddle:
  assumes run: "run pattern (u @ w @ CHR ''l'' # y) 0 = Some (ms, e)"
    and u: "u \<noteq> []" "edge u" and w: "ws w" "w \<noteq> []"
  shows "e \<le> length u"
proof -
  let ?t = "w @ CHR ''l'' # y"
  from pattern_end [OF run] obtain w1 w2 w3 w4 r where
    s: "u @ w @ CHR ''l'' # y = w1 @ bare_stmt w2 w3 w4 @ ''Gun::new();'' @ r"
    and ws: "ws w1" "ws w2" "ws w3" "ws w4"
    and e: "e = 0 + length w1 + length (bare_stmt w2 w3 w4) + 11"
    by blast
  from s have "u @ w @ CHR ''l'' # y =
      w1 @ CHR ''l'' # (''et'' @ w2 @ ''gun'' @ w3 @ ''='' @ w4 @ ''Gun::new();'' @ r)"
    by (simp add: bare_stmt_def)
  from ws_step [OF this w ws(1) _ _ _ u(2)] u(1)
  obtain us1 where 1: "u = w1 @ us1" "edge us1"
    "us1 @ w @ CHR ''l'' # y = ''let'' @ (w2 @ ''gun'' @ w3 @ ''='' @ w4 @ ''Gun::new();'' @ r)"
    by auto
  have B: "\<forall>x \<in> set ''let''. \<not> is_space x" "\<forall>x \<in> set ''gun''. \<not> is_space x"
    "\<forall>x \<in> set ''=''. \<not> is_space x" "\<forall>x \<in> set ''Gun::new();''. \<not> is_space x"
    by (simp_all add: is_space_def)
  from sf_step [OF 1(3) w B(1) 1(2)]
  obtain us2 where 2: "us1 = ''let'' @ us2" "edge us2"
    "us2 @ w @ CHR ''l'' # y = w2 @ CHR ''g'' # (''un'' @ w3 @ ''='' @ w4 @ ''Gun::new();'' @ r)"
    by auto
  from ws_step [OF 2(3) w ws(2) _ _ _ 2(2)]
  obtain us3 where 3: "us2 = w2 @ us3" "edge us3"
    "us3 @ w @ CHR ''l'' # y = ''gun'' @ (w3 @ ''='' @ w4 @ ''Gun::new();'' @ r)"
    by auto
  from sf_step [OF 3(3) w B(2) 3(2)]
  obtain us4 where 4: "us3 = ''gun'' @ us4" "edge us4"
    "us4 @ w @ CHR ''l'' # y = w3 @ CHR ''='' # (w4 @ ''Gun::new();'' @ r)"
    by auto
  from ws_step [OF 4(3) w ws(3) _ _ _ 4(2)]
  obtain us5 where 5: "us4 = w3 @ us5" "edge us5"
    "us5 @ w @ CHR ''l'' # y = ''='' @ (w4 @ ''Gun::new();'' @ r)"
    by auto
  from sf_step [OF 5(3) w B(3) 5(2)]
  obtain us6 where 6: "us5 = ''='' @ us6" "edge us6"
    "us6 @ w @ CHR ''l'' # y = w4 @ CHR ''G'' # (''un::new();'' @ r)"
    by auto
  from ws_step [OF 6(3) w ws(4) _ _ _ 6(2)]
  obtain us7 where 7: "us6 = w4 @ us7" "edge us7"
    "us7 @ w @ CHR ''l'' # y = ''Gun::new();'' @ r"
    by auto
  from sf_step [OF 7(3) w B(4) 7(2)]
  obtain us8 where 8: "us7 = ''Gun::new();'' @ us8"
    by auto
  from 1(1) 2(1) 3(1) 4(1) 5(1) 6(1) 7(1) 8
  have "u = w1 @ bare_stmt w2 w3 w4 @ ''Gun::new();'' @ us8"
    by (simp add: bare_stmt_def)
  then have "length u = length w1 + length (bare_stmt w2 w3 w4) + 11 + length us8"
    by simp
  with e show ?thesis by simp
qed

lemma re_sub_hit:
  "run p s 0 = Some (ms, e) \<Longrightarrow> 0 < e \<Longrightarrow>
   re_sub p r s = expand r s ms @ re_sub p r (drop e s)"
  by (subst re_sub.simps) simp

lemma re_sub_miss:
  "run p (c # cs) 0 = None \<Longrightarrow> re_sub p r (c # cs) = c # re_sub p r cs"
  by (subst re_sub.simps) simp

lemma re_sub_Nil:
  "run p [] 0 = None \<Longrightarrow> re_sub p r [] = []"
  by (subst re_sub.simps) simp

lemma edge_drop: "edge u \<Longrightarrow> edge (drop k u)"
  by (auto simp: edge_def)

lemma edge_Cons: "edge (c # u) \<Longrightarrow> edge u"
  by (auto simp: edge_def split: if_splits)

lemma re_sub_bare_at_site:
  assumes "ws w1" "w1 \<noteq> []" "ws w2" "w2 \<noteq> []" "ws w3" "ws w4"
  shows "re_sub pattern replacement (w1 @ bare_stmt w2 w3 w4 @ ''Gun::new();'' @ post) =
         key_block w1 (bare_stmt w2 w3 w4) ''Gun::new(secret_key, public_key);'' @
         re_sub pattern replacement post"
proof -
  let ?s = "w1 @ bare_stmt w2 w3 w4 @ ''Gun::new();'' @ post"
  let ?e = "0 + length w1 + length (bare_stmt w2 w3 w4) + 11"
  note r = pattern_run [OF assms, of post 0]
  have "re_sub pattern replacement ?s =
        expand replacement ?s [0, 0 + length w1, 0 + length w1, 0 + length w1 + length (bare_stmt w2 w3 w4)] @
        re_sub pattern replacement (drop ?e ?s)"
    using r by (rule re_sub_hit) simp
  moreover have "drop ?e ?s = post" by simp
  moreover have "expand replacement ?s [0, 0 + length w1, 0 + length w1, 0 + length w1 + length (bare_stmt w2 w3 w4)] =
      key_block w1 (bare_stmt w2 w3 w4) ''Gun::new(secret_key, public_key);''"
    using expand_replacement [OF assms(2), of "bare_stmt w2 w3 w4" "''Gun::new();'' @ post"]
    by simp
  ultimately show ?thesis by simp
qed

lemma re_sub_bare_site:
  assumes w: "ws w1" "w1 \<noteq> []" "ws w2" "w2 \<noteq> []" "ws w3" "ws w4"
  shows "edge pre \<Longrightarrow>
         \<exists>a. re_sub pattern replacement (pre @ w1 @ bare_stmt w2 w3 w4 @ ''Gun::new();'' @ post) =
             a @ key_block w1 (bare_stmt w2 w3 w4) ''Gun::new(secret_key, public_key);'' @
             re_sub pattern replacement post"
proof (induction "length pre" arbitrary: pre rule: less_induct)
  case less
  let ?site = "w1 @ bare_stmt w2 w3 w4 @ ''Gun::new();'' @ post"
  let ?out = "key_block w1 (bare_stmt w2 w3 w4) ''Gun::new(secret_key, public_key);'' @
             re_sub pattern replacement post"
  show ?case
  proof (cases pre)
    case Nil
    have "re_sub pattern replacement ?site = [] @ ?out"
      using re_sub_bare_at_site [OF w] by simp
    with Nil show ?thesis by (metis append_Nil)
  next
    case (Cons c cs)
    show ?thesis
    proof (cases "run pattern (pre @ ?site) 0")
      case None
      with Cons have "re_sub pattern replacement (pre @ ?site) =
          c # re_sub pattern replacement (cs @ ?site)"
        by (simp add: re_sub_miss)
      moreover from less.prems Cons have "edge cs" by (auto dest: edge_Cons)
      with less.hyps [of cs] Cons obtain a where
        "re_sub pattern replacement (cs @ ?site) = a @ ?out"
        by auto
      ultimately have "re_sub pattern replacement (pre @ ?site) = (c # a) @ ?out"
        by simp
      then show ?thesis by blast
    next
      case (Some m)
      obtain ms e where m: "m = (ms, e)" by (cases m)
      have site: "pre @ ?site = pre @ w1 @ CHR ''l'' # (''et'' @ w2 @ ''gun'' @ w3 @ ''='' @ w4 @ ''Gun::new();'' @ post)"
        by (simp add: bare_stmt_def)
      from Some m have run: "run pattern (pre @ ?site) 0 = Some (ms, e)" by simp
      then have "run pattern (pre @ w1 @ CHR ''l'' # (''et'' @ w2 @ ''gun'' @ w3 @ ''='' @ w4 @ ''Gun::new();'' @ post)) 0 = Some (ms, e)"
        unfolding site .
      then have le: "e \<le> length pre"
        using Cons less.prems w(1,2) by (intro bare_no_straddle) simp_all
      from pattern_end [OF run] have pos: "0 < e" by auto
      have "re_sub pattern replacement (pre @ ?site) =
          expand replacement (pre @ ?site) ms @ re_sub pattern replacement (drop e (pre @ ?site))"
        using run pos by (rule re_sub_hit)
      moreover from le have "drop e (pre @ ?site) = drop e pre @ ?site" by simp
      moreover from pos Cons have "length (drop e pre) < length pre" by simp
      with less.hyps [of "drop e pre"] less.prems obtain a where
        "re_sub pattern replacement (drop e pre @ ?site) = a @ ?out"
        by (auto dest: edge_drop)
      ultimately have "re_sub pattern replacement (pre @ ?site) =
          (expand replacement (pre @ ?site) ms @ a) @ ?out"
        by simp
      then show ?thesis by blast
    qed
  qed
qed

lemma takeWhile_hd:
  "\<forall>x \<in> set a. P x \<Longrightarrow> r \<noteq> [] \<Longrightarrow> \<not> P (hd r) \<Longrightarrow> takeWhile P (a @ r) = a"
  by (cases r) simp_all

lemma dropWhile_hd:
  "\<forall>x \<in> set a. P x \<Longrightarrow> r \<noteq> [] \<Longrightarrow> \<not> P (hd r) \<Longrightarrow> dropWhile P (a @ r) = r"
  by (cases r) simp_all

lemma arc_no_straddle:
  assumes run: "run pattern2 (u @ w @ ''let'' @ w2' @ v' @ x) 0 = Some (ms, e)"
    and u: "u \<noteq> []" "edge u" and w: "ws w" "w \<noteq> []"
    and w2': "ws w2'" "w2' \<noteq> []" and v': "wd v'" "v' \<noteq> []"
  shows "e \<le> length u"
proof -
  let ?y = "''et'' @ w2' @ v' @ x"
  from pattern2_end [OF run] obtain w1 w2 v w3 w4 r where
    s: "u @ w @ ''let'' @ w2' @ v' @ x = w1 @ arc_stmt w2 v w3 w4 @ ''Gun::new());'' @ r"
    and ws: "ws w1" "ws w2" "ws w3" "ws w4" and v: "wd v" "v \<noteq> []"
    and e: "e = 0 + length w1 + length (arc_stmt w2 v w3 w4) + 12"
    by blast
  let ?R = "w4 @ ''Arc::new('' @ ''Gun::new());'' @ r"
  have vs: "\<forall>x \<in> set v. \<not> is_space x"
    using v(1) by (auto simp: wd_def dest: word_not_space)
  have w3w: "\<forall>x \<in> set w3. \<not> is_word x"
    using ws(3) by (auto simp: ws_def dest: space_not_word)
  have hv': "is_word (hd v')" "\<not> is_space (hd v')"
    using v' by (auto simp: wd_def dest: word_not_space)
  have hw2': "is_space (hd w2')" "\<not> is_word (hd w2')"
    using w2' by (auto simp: ws_def dest: space_not_word)
  have B: "\<forall>x \<in> set ''let''. \<not> is_space x" "\<forall>x \<in> set ''=''. \<not> is_space x"
    "\<forall>x \<in> set ''Arc::new(Gun::new());''. \<not> is_space x"
    "\<forall>x \<in> set ''let''. is_word x"
    by (simp_all add: is_space_def is_word_def)
  from s have "u @ w @ CHR ''l'' # ?y =
      w1 @ CHR ''l'' # (''et'' @ w2 @ v @ w3 @ ''='' @ ?R)"
    by (simp add: arc_stmt_def)
  from ws_step [OF this w ws(1) _ _ _ u(2)] u(1)
  obtain us1 where 1: "u = w1 @ us1" "edge us1"
    "us1 @ w @ CHR ''l'' # ?y = ''let'' @ (w2 @ v @ w3 @ ''='' @ ?R)"
    by auto
  from sf_step [OF 1(3) w B(1) 1(2)]
  obtain us2 where 2: "us1 = ''let'' @ us2" "edge us2"
    "us2 @ w @ CHR ''l'' # ?y = w2 @ v @ w3 @ ''='' @ ?R"
    by auto
  obtain hv tv where vc: "v = hv # tv" using v(2) by (cases v) auto
  with vs have hvs: "\<not> is_space hv" by simp
  obtain hw tw where wc: "w2' = hw # tw" using w2'(2) by (cases w2') auto
  with hw2' have hws: "\<not> is_word hw" by simp
  obtain hv2 tv2 where vc2: "v' = hv2 # tv2" using v'(2) by (cases v') auto
  with hv' have hv2s: "\<not> is_space hv2" "is_word hv2" by simp_all
  have ne2: "us2 \<noteq> []"
  proof
    assume "us2 = []"
    with 2(3) have eq: "w @ CHR ''l'' # ?y = w2 @ hv # (tv @ w3 @ ''='' @ ?R)"
      by (simp add: vc)
    have a1: "dropWhile is_space (w @ CHR ''l'' # ?y) = CHR ''l'' # ?y"
      using w(1) by (intro dropWhile_run) (simp_all add: ws_def)
    have a2: "dropWhile is_space (w2 @ hv # (tv @ w3 @ ''='' @ ?R)) = hv # (tv @ w3 @ ''='' @ ?R)"
      using ws(2) hvs by (intro dropWhile_run) (simp_all add: ws_def)
    from eq have "dropWhile is_space (w @ CHR ''l'' # ?y) =
        dropWhile is_space (w2 @ hv # (tv @ w3 @ ''='' @ ?R))"
      by (rule arg_cong)
    then have "CHR ''l'' # ?y = hv # (tv @ w3 @ ''='' @ ?R)"
      unfolding a1 a2 .
    then have eq2: "''let'' @ hw # (tw @ v' @ x) = v @ w3 @ CHR ''='' # ?R"
      by (simp add: vc wc)
    have b1: "dropWhile is_word (''let'' @ hw # (tw @ v' @ x)) = hw # (tw @ v' @ x)"
      using B(4) hws by (rule dropWhile_run)
    have b2: "dropWhile is_word (v @ w3 @ CHR ''='' # ?R) = w3 @ CHR ''='' # ?R"
      using v(1) w3w by (intro dropWhile_run2) (simp_all add: wd_def)
    from eq2 have "dropWhile is_word (''let'' @ hw # (tw @ v' @ x)) =
        dropWhile is_word (v @ w3 @ CHR ''='' # ?R)"
      by (rule arg_cong)
    then have "hw # (tw @ v' @ x) = w3 @ CHR ''='' # ?R"
      unfolding b1 b2 .
    then have eq3: "w2' @ hv2 # (tv2 @ x) = w3 @ CHR ''='' # ?R"
      by (simp add: wc vc2)
    have c1: "dropWhile is_space (w2' @ hv2 # (tv2 @ x)) = hv2 # (tv2 @ x)"
      using w2'(1) hv2s(1) by (intro dropWhile_run) (simp_all add: ws_def)
    have c2: "dropWhile is_space (w3 @ CHR ''='' # ?R) = CHR ''='' # ?R"
      using ws(3) by (intro dropWhile_run) (simp_all add: ws_def)
    from eq3 have "dropWhile is_space (w2' @ hv2 # (tv2 @ x)) =
        dropWhile is_space (w3 @ CHR ''='' # ?R)"
      by (rule arg_cong)
    then have "hv2 # (tv2 @ x) = CHR ''='' # ?R"
      unfolding c1 c2 .
    with hv2s(2) show False by simp
  qed
  from 2(3) vc have "us2 @ w @ CHR ''l'' # ?y = w2 @ hv # (tv @ w3 @ ''='' @ ?R)"
    by simp
  from ws_step [OF this w ws(2) _ hvs _ 2(2)] ne2
  obtain us3 where 3: "us2 = w2 @ us3" "edge us3"
    "us3 @ w @ CHR ''l'' # ?y = v @ (w3 @ ''='' @ ?R)"
    using vc by auto
  from sf_step [OF 3(3) w vs 3(2)]
  obtain us4 where 4: "us3 = v @ us4" "edge us4"
    "us4 @ w @ CHR ''l'' # ?y = w3 @ CHR ''='' # ?R"
    by auto
  from ws_step [OF 4(3) w ws(3) _ _ _ 4(2)]
  obtain us5 where 5: "us4 = w3 @ us5" "edge us5"
    "us5 @ w @ CHR ''l'' # ?y = ''='' @ ?R"
    by auto
  from sf_step [OF 5(3) w B(2) 5(2)]
  obtain us6 where 6: "us5 = ''='' @ us6" "edge us6"
    "us6 @ w @ CHR ''l'' # ?y = w4 @ CHR ''A'' # (''rc::new(Gun::new());'' @ r)"
    by auto
  from ws_step [OF 6(3) w ws(4) _ _ _ 6(2)]
  obtain us7 where 7: "us6 = w4 @ us7" "edge us7"
    "us7 @ w @ CHR ''l'' # ?y = ''Arc::new(Gun::new());'' @ r"
    by auto
  from sf_step [OF 7(3) w B(3) 7(2)]
  obtain us8 where 8: "us7 = ''Arc::new(Gun::new());'' @ us8"
    by auto
  from 1(1) 2(1) 3(1) 4(1) 5(1) 6(1) 7(1) 8
  have "u = w1 @ arc_stmt w2 v w3 w4 @ ''Gun::new());'' @ us8"
    by (simp add: arc_stmt_def)
  then have "length u = length w1 + length (arc_stmt w2 v w3 w4) + 12 + length us8"
    by simp
  with e show ?thesis by simp
qed

lemma re_sub_arc_at_site:
  assumes "ws w1" "w1 \<noteq> []" "ws w2" "w2 \<noteq> []" "wd v" "v \<noteq> []" "ws w3" "ws w4"
  shows "re_sub pattern2 replacement2 (w1 @ arc_stmt w2 v w3 w4 @ ''Gun::new());'' @ post) =
         key_block w1 (arc_stmt w2 v w3 w4) ''Gun::new(secret_key, public_key));'' @
         re_sub pattern2 replacement2 post"
proof -
  let ?s = "w1 @ arc_stmt w2 v w3 w4 @ ''Gun::new());'' @ post"
  let ?e = "0 + length w1 + length (arc_stmt w2 v w3 w4) + 12"
  note r = pattern2_run [OF assms, of post 0]
  have "re_sub pattern2 replacement2 ?s =
        expand replacement2 ?s [0, 0 + length w1, 0 + length w1, 0 + length w1 + length (arc_stmt w2 v w3 w4)] @
        re_sub pattern2 replacement2 (drop ?e ?s)"
    using r by (rule re_sub_hit) simp
  moreover have "drop ?e ?s = post" by simp
  moreover have "expand replacement2 ?s [0, 0 + length w1, 0 + length w1, 0 + length w1 + length (arc_stmt w2 v w3 w4)] =
      key_block w1 (arc_stmt w2 v w3 w4) ''Gun::new(secret_key, public_key));''"
    using expand_replacement2 [OF assms(2), of "arc_stmt w2 v w3 w4" "''Gun::new());'' @ post"]
    by simp
  ultimately show ?thesis by simp
qed

lemma re_sub_arc_site:
  assumes w: "ws w1" "w1 \<noteq> []" "ws w2" "w2 \<noteq> []" "wd v" "v \<noteq> []" "ws w3" "ws w4"
  shows "edge pre \<Longrightarrow>
         \<exists>a. re_sub pattern2 replacement2 (pre @ w1 @ arc_stmt w2 v w3 w4 @ ''Gun::new());'' @ post) =
             a @ key_block w1 (arc_stmt w2 v w3 w4) ''Gun::new(secret_key, public_key));'' @
             re_sub pattern2 replacement2 post"
proof (induction "length pre" arbitrary: pre rule: less_induct)
  case less
  let ?site = "w1 @ arc_stmt w2 v w3 w4 @ ''Gun::new());'' @ post"
  let ?out = "key_block w1 (arc_stmt w2 v w3 w4) ''Gun::new(secret_key, public_key));'' @
             re_sub pattern2 replacement2 post"
  show ?case
  proof (cases pre)
    case Nil
    have "re_sub pattern2 replacement2 ?site = [] @ ?out"
      using re_sub_arc_at_site [OF w] by simp
    with Nil show ?thesis by (metis append_Nil)
  next
    case (Cons c cs)
    show ?thesis
    proof (cases "run pattern2 (pre @ ?site) 0")
      case None
      with Cons have "re_sub pattern2 replacement2 (pre @ ?site) =
          c # re_sub pattern2 replacement2 (cs @ ?site)"
        by (simp add: re_sub_miss)
      moreover from less.prems Cons have "edge cs" by (auto dest: edge_Cons)
      with less.hyps [of cs] Cons obtain a where
        "re_sub pattern2 replacement2 (cs @ ?site) = a @ ?out"
        by auto
      ultimately have "re_sub pattern2 replacement2 (pre @ ?site) = (c # a) @ ?out"
        by simp
      then show ?thesis by blast
    next
      case (Some m)
      obtain ms e where m: "m = (ms, e)" by (cases m)
      have site: "pre @ ?site =
          pre @ w1 @ ''let'' @ w2 @ v @ (w3 @ ''='' @ w4 @ ''Arc::new('' @ ''Gun::new());'' @ post)"
        by (simp add: arc_stmt_def)
      from Some m have run: "run pattern2 (pre @ ?site) 0 = Some (ms, e)" by simp
      then have "run pattern2 (pre @ w1 @ ''let'' @ w2 @ v @
          (w3 @ ''='' @ w4 @ ''Arc::new('' @ ''Gun::new());'' @ post)) 0 = Some (ms, e)"
        unfolding site .
      from arc_no_straddle [OF this _ less.prems w(1) w(2) w(3) w(4) w(5) w(6)] Cons
      have le: "e \<le> length pre" by simp
      from pattern2_end [OF run] have pos: "0 < e" by auto
      have "re_sub pattern2 replacement2 (pre @ ?site) =
          expand replacement2 (pre @ ?site) ms @ re_sub pattern2 replacement2 (drop e (pre @ ?site))"
        using run pos by (rule re_sub_hit)
      moreover from le have "drop e (pre @ ?site) = drop e pre @ ?site" by simp
      moreover from pos Cons have "length (drop e pre) < length pre" by simp
      with less.hyps [of "drop e pre"] less.prems obtain a where
        "re_sub pattern2 replacement2 (drop e pre @ ?site) = a @ ?out"
        by (auto dest: edge_drop)
      ultimately have "re_sub pattern2 replacement2 (pre @ ?site) =
          (expand replacement2 (pre @ ?site) ms @ a) @ ?out"
        by simp
      then show ?thesis by blast
    qed
  qed
qed

text \<open>A match depends on the matched text only, not on what follows it.\<close>

lemma pattern_local:
  assumes "run pattern s 0 = Some (ms, e)"
  shows "run pattern (take e s @ y) 0 = Some (ms, e)"
proof -
  from pattern_end [OF assms] obtain w1 w2 w3 w4 r where
    s: "s = w1 @ bare_stmt w2 w3 w4 @ ''Gun::new();'' @ r"
    and w: "ws w1" "w1 \<noteq> []" "ws w2" "w2 \<noteq> []" "ws w3" "ws w4"
    and ms: "ms = [0, 0 + length w1, 0 + length w1, 0 + length w1 + length (bare_stmt w2 w3 w4)]"
    and e: "e = 0 + length w1 + length (bare_stmt w2 w3 w4) + 11"
    by blast
  have "take e s = w1 @ bare_stmt w2 w3 w4 @ ''Gun::new();''"
    unfolding s e by simp
  then have "take e s @ y = w1 @ bare_stmt w2 w3 w4 @ ''Gun::new();'' @ y"
    by simp
  with pattern_run [OF w, of y 0] ms e show ?thesis by simp
qed

lemma pattern2_local:
  assumes "run pattern2 s 0 = Some (ms, e)"
  shows "run pattern2 (take e s @ y) 0 = Some (ms, e)"
proof -
  from pattern2_end [OF assms] obtain w1 w2 v w3 w4 r where
    s: "s = w1 @ arc_stmt w2 v w3 w4 @ ''Gun::new());'' @ r"
    and w: "ws w1" "w1 \<noteq> []" "ws w2" "w2 \<noteq> []" "wd v" "v \<noteq> []" "ws w3" "ws w4"
    and ms: "ms = [0, 0 + length w1, 0 + length w1, 0 + length w1 + length (arc_stmt w2 v w3 w4)]"
    and e: "e = 0 + length w1 + length (arc_stmt w2 v w3 w4) + 12"
    by blast
  have "take e s = w1 @ arc_stmt w2 v w3 w4 @ ''Gun::new());''"
    unfolding s e by simp
  then have "take e s @ y = w1 @ arc_stmt w2 v w3 w4 @ ''Gun::new());'' @ y"
    by simp
  with pattern2_run [OF w, of y 0] ms e show ?thesis by simp
qed

text \<open>The replacement of a match, from the shape of the match.\<close>

lemma pattern_expand:
  assumes "run pattern s 0 = Some (ms, e)"
  shows "\<exists>w1 g. ws w1 \<and> w1 \<noteq> [] \<and> take e s = w1 @ g @ ''Gun::new();'' \<and>
           CHR '';'' \<notin> set g \<and> CHR ''/'' \<notin> set g \<and>
           (\<forall>y. expand replacement (take e s @ y) ms =
                  key_block w1 g ''Gun::new(secret_key, public_key);'')"
proof -
  from pattern_end [OF assms] obtain w1 w2 w3 w4 r where
    s: "s = w1 @ bare_stmt w2 w3 w4 @ ''Gun::new();'' @ r"
    and w: "ws w1" "w1 \<noteq> []" "ws w2" "w2 \<noteq> []" "ws w3" "ws w4"
    and ms: "ms = [0, 0 + length w1, 0 + length w1, 0 + length w1 + length (bare_stmt w2 w3 w4)]"
    and e: "e = 0 + length w1 + length (bare_stmt w2 w3 w4) + 11"
    by blast
  let ?g = "bare_stmt w2 w3 w4"
  have t: "take e s = w1 @ ?g @ ''Gun::new();''"
    unfolding s e by simp
  have "expand replacement (take e s @ y) ms = key_block w1 ?g ''Gun::new(secret_key, public_key);''" for y
    using expand_replacement [OF w(2), of ?g "''Gun::new();'' @ y"] t ms by simp
  moreover have "CHR '';'' \<notin> set ?g" "CHR ''/'' \<notin> set ?g"
    using w by (auto simp: bare_stmt_def ws_def)
  ultimately show ?thesis using w(1,2) t by blast
qed

lemma pattern2_expand:
  assumes "run pattern2 s 0 = Some (ms, e)"
  shows "\<exists>w1 g. ws w1 \<and> w1 \<noteq> [] \<and> take e s = w1 @ g @ ''Gun::new());'' \<and>
           CHR '';'' \<notin> set g \<and> CHR ''/'' \<notin> set g \<and>
           (\<forall>y. expand replacement2 (take e s @ y) ms =
                  key_block w1 g ''Gun::new(secret_key, public_key));'')"
proof -
  from pattern2_end [OF assms] obtain w1 w2 v w3 w4 r where
    s: "s = w1 @ arc_stmt w2 v w3 w4 @ ''Gun::new());'' @ r"
    and w: "ws w1" "w1 \<noteq> []" "ws w2" "w2 \<noteq> []" "wd v" "v \<noteq> []" "ws w3" "ws w4"
    and ms: "ms = [0, 0 + length w1, 0 + length w1, 0 + length w1 + length (arc_stmt w2 v w3 w4)]"
    and e: "e = 0 + length w1 + length (arc_stmt w2 v w3 w4) + 12"
    by blast
  let ?g = "arc_stmt w2 v w3 w4"
  have t: "take e s = w1 @ ?g @ ''Gun::new());''"
    unfolding s e by simp
  have "expand replacement2 (take e s @ y) ms = key_block w1 ?g ''Gun::new(secret_key, public_key));''" for y
    using expand_replacement2 [OF w(2), of ?g "''Gun::new());'' @ y"] t ms by simp
  moreover have "CHR '';'' \<notin> set ?g" "CHR ''/'' \<notin> set ?g"
    using w by (auto simp: arc_stmt_def ws_def wd_def)
  ultimately show ?thesis using w(1,2) t by blast
qed

text \<open>
  Where no match that begins in a prefix of the text reaches beyond that prefix, the
  substitution works on the prefix and on the rest of the text separately.
\<close>

lemma re_sub_split:
  assumes local: "\<And>s ms e y. run p s 0 = Some (ms, e) \<Longrightarrow> run p (take e s @ y) 0 = Some (ms, e)"
    and pos: "\<And>s ms e. run p s 0 = Some (ms, e) \<Longrightarrow> 0 < e"
    and exp: "\<And>s ms e y. run p s 0 = Some (ms, e) \<Longrightarrow> expand r (take e s @ y) ms = expand r s ms"
    and nostr: "\<And>u ms e. u \<noteq> [] \<Longrightarrow> suffix u pre \<Longrightarrow> run p (u @ t) 0 = Some (ms, e) \<Longrightarrow>
                  e \<le> length u"
  shows "suffix u pre \<Longrightarrow> re_sub p r (u @ t) = re_sub p r u @ re_sub p r t"
proof (induction "length u" arbitrary: u rule: less_induct)
  case less
  show ?case
  proof (cases u)
    case Nil
    have "run p [] 0 = None"
    proof (cases "run p [] 0")
      case (Some m)
      obtain ms e where "m = (ms, e)" by (cases m)
      with Some pos [of "[]" ms e] run_bounds [of p "[]" 0 ms e] show ?thesis by simp
    qed simp
    then have "re_sub p r [] = []" by (rule re_sub_Nil)
    with Nil show ?thesis by simp
  next
    case (Cons c cs)
    then have cs: "suffix cs pre" "length cs < length u"
      using less.prems by (auto dest: suffix_ConsD)
    show ?thesis
    proof (cases "run p (u @ t) 0")
      case None
      have "run p u 0 = None"
      proof (cases "run p u 0")
        case (Some m)
        obtain ms e where m: "m = (ms, e)" by (cases m)
        with Some have r: "run p u 0 = Some (ms, e)" by simp
        from run_bounds [OF r] have "e \<le> length u" by simp
        then have "take e u @ (drop e u @ t) = u @ t" by simp
        with local [OF r, of "drop e u @ t"] None show ?thesis by simp
      qed simp
      with None Cons less.hyps [OF cs(2) cs(1)] show ?thesis
        by (simp add: re_sub_miss)
    next
      case (Some m)
      obtain ms e where m: "m = (ms, e)" by (cases m)
      with Some have r: "run p (u @ t) 0 = Some (ms, e)" by simp
      from nostr [OF _ less.prems r] Cons have le: "e \<le> length u" by simp
      from pos [OF r] have e: "0 < e" .
      from le have tk: "take e (u @ t) @ drop e u = u" by simp
      from local [OF r, of "drop e u"] tk have ru: "run p u 0 = Some (ms, e)" by simp
      from exp [OF r, of "drop e u"] tk have ex: "expand r u ms = expand r (u @ t) ms" by simp
      have d: "suffix (drop e u) pre"
        using less.prems by (meson suffix_drop suffix_order.trans)
      from e Cons have "length (drop e u) < length u" by simp
      from less.hyps [OF this d] have ih: "re_sub p r (drop e u @ t) = re_sub p r (drop e u) @ re_sub p r t" .
      have "re_sub p r (u @ t) = expand r (u @ t) ms @ re_sub p r (drop e (u @ t))"
        using r e by (rule re_sub_hit)
      also have "drop e (u @ t) = drop e u @ t" using le by simp
      also have "re_sub p r u = expand r u ms @ re_sub p r (drop e u)"
        using ru e by (rule re_sub_hit)
      ultimately show ?thesis using ih ex by simp
    qed
  qed
qed

lemma edge_suffix: "edge pre \<Longrightarrow> suffix u pre \<Longrightarrow> u \<noteq> [] \<Longrightarrow> edge u"
  by (auto simp: edge_def suffix_def)

lemma pattern_pos: "run pattern s 0 = Some (ms, e) \<Longrightarrow> 0 < e"
  using pattern_end [of s 0 ms e] by auto

lemma pattern2_pos: "run pattern2 s 0 = Some (ms, e) \<Longrightarrow> 0 < e"
  using pattern2_end [of s 0 ms e] by auto

lemma pattern_expand_eq:
  assumes "run pattern s 0 = Some (ms, e)"
  shows "expand replacement (take e s @ y) ms = expand replacement s ms"
proof -
  from pattern_expand [OF assms] obtain w1 g where
    a: "\<forall>y. expand replacement (take e s @ y) ms = key_block w1 g ''Gun::new(secret_key, public_key);''"
    by blast
  from a have "expand replacement (take e s @ drop e s) ms =
      key_block w1 g ''Gun::new(secret_key, public_key);''" by blast
  with a show ?thesis by simp
qed

lemma pattern2_expand_eq:
  assumes "run pattern2 s 0 = Some (ms, e)"
  shows "expand replacement2 (take e s @ y) ms = expand replacement2 s ms"
proof -
  from pattern2_expand [OF assms] obtain w1 g where
    a: "\<forall>y. expand replacement2 (take e s @ y) ms = key_block w1 g ''Gun::new(secret_key, public_key));''"
    by blast
  from a have "expand replacement2 (take e s @ drop e s) ms =
      key_block w1 g ''Gun::new(secret_key, public_key));''" by blast
  with a show ?thesis by simp
qed

lemma re_sub_bare_split:
  assumes w: "ws w1" "w1 \<noteq> []" "ws w2" "w2 \<noteq> []" "ws w3" "ws w4"
    and pre: "edge pre"
  shows "re_sub pattern replacement (pre @ w1 @ bare_stmt w2 w3 w4 @ ''Gun::new();'' @ post) =
         re_sub pattern replacement pre @
         key_block w1 (bare_stmt w2 w3 w4) ''Gun::new(secret_key, public_key);'' @
         re_sub pattern replacement post"
proof -
  let ?t = "w1 @ bare_stmt w2 w3 w4 @ ''Gun::new();'' @ post"
  have t: "?t = w1 @ CHR ''l'' # (''et'' @ w2 @ ''gun'' @ w3 @ ''='' @ w4 @ ''Gun::new();'' @ post)"
    by (simp add: bare_stmt_def)
  have "re_sub pattern replacement (pre @ ?t) =
        re_sub pattern replacement pre @ re_sub pattern replacement ?t"
  proof (rule re_sub_split [where pre = pre])
    show "suffix pre pre" by simp
  next
    fix u ms e
    assume u: "u \<noteq> []" "suffix u pre" and r: "run pattern (u @ ?t) 0 = Some (ms, e)"
    from pre u have e: "edge u" by (simp add: edge_suffix)
    from r have "run pattern (u @ w1 @ CHR ''l'' #
        (''et'' @ w2 @ ''gun'' @ w3 @ ''='' @ w4 @ ''Gun::new();'' @ post)) 0 = Some (ms, e)"
      unfolding t .
    from bare_no_straddle [OF this u(1) e w(1) w(2)]
    show "e \<le> length u" .
  qed (simp_all add: pattern_local pattern_pos pattern_expand_eq)
  then show ?thesis
    using re_sub_bare_at_site [OF w, of post] by simp
qed

lemma re_sub_arc_split:
  assumes w: "ws w1" "w1 \<noteq> []" "ws w2" "w2 \<noteq> []" "wd v" "v \<noteq> []" "ws w3" "ws w4"
    and pre: "edge pre"
  shows "re_sub pattern2 replacement2 (pre @ w1 @ arc_stmt w2 v w3 w4 @ ''Gun::new());'' @ post) =
         re_sub pattern2 replacement2 pre @
         key_block w1 (arc_stmt w2 v w3 w4) ''Gun::new(secret_key, public_key));'' @
         re_sub pattern2 replacement2 post"
proof -
  let ?t = "w1 @ arc_stmt w2 v w3 w4 @ ''Gun::new());'' @ post"
  have t: "?t = w1 @ ''let'' @ w2 @ v @ (w3 @ ''='' @ w4 @ ''Arc::new('' @ ''Gun::new());'' @ post)"
    by (simp add: arc_stmt_def)
  have "re_sub pattern2 replacement2 (pre @ ?t) =
        re_sub pattern2 replacement2 pre @ re_sub pattern2 replacement2 ?t"
  proof (rule re_sub_split [where pre = pre])
    show "suffix pre pre" by simp
  next
    fix u ms e
    assume u: "u \<noteq> []" "suffix u pre" and r: "run pattern2 (u @ ?t) 0 = Some (ms, e)"
    from pre u have e: "edge u" by (simp add: edge_suffix)
    from r have "run pattern2 (u @ w1 @ ''let'' @ w2 @ v @
        (w3 @ ''='' @ w4 @ ''Arc::new('' @ ''Gun::new());'' @ post)) 0 = Some (ms, e)"
      unfolding t .
    from arc_no_straddle [OF this u(1) e w(1) w(2) w(3) w(4) w(5) w(6)]
    show "e \<le> length u" .
  qed (simp_all add: pattern2_local pattern2_pos pattern2_expand_eq)
  then show ?thesis
    using re_sub_arc_at_site [OF w, of post] by simp
qed

lemma rewrite_new_eq:
  "contains ''Gun::new()'' t \<Longrightarrow>
   rewrite_new (t, u) =
     (re_sub pattern2 replacement2 (re_sub pattern replacement t),
      u \<or> re_sub pattern replacement t \<noteq> t \<or>
      re_sub pattern2 replacement2 (re_sub pattern replacement t) \<noteq> re_sub pattern replacement t)"
  by (auto simp: rewrite_new_def Let_def)

section \<open>A second run of the pass on \<^verbatim>\<open>Gun::new()\<close>\<close>

text \<open>
  The text up to the first semicolon, semicolon included. Both patterns end with
  a semicolon and match no other one, so a match at the head of a text is this text.
\<close>

definition stmt :: "string \<Rightarrow> string" where
  "stmt x = takeWhile (\<lambda>c. c \<noteq> CHR '';'') x @ take 1 (dropWhile (\<lambda>c. c \<noteq> CHR '';'') x)"

definition tail_rule :: "tok list \<Rightarrow> string \<Rightarrow> bool" where
  "tail_rule P tP =
     (run P [] 0 = None \<and>
      (\<forall>x ms e. run P x 0 = Some (ms, e) \<longrightarrow>
         take e x = stmt x \<and> suffix tP (stmt x) \<and>
         (\<forall>y. run P (take e x @ y) 0 = Some (ms, e))))"

definition block_rule :: "tok list \<Rightarrow> tpart list \<Rightarrow> bool" where
  "block_rule Q r =
     (\<forall>s ms e. run Q s 0 = Some (ms, e) \<longrightarrow>
        0 < e \<and> e \<le> length s \<and>
        (\<exists>w g t. ws w \<and> CHR '';'' \<notin> set g \<and>
           (t = ''Gun::new(secret_key, public_key)'' \<or>
            t = ''Gun::new(secret_key, public_key))'') \<and>
           expand r s ms = key_block w g (t @ '';'')))"

lemma stmt_Nil [simp]: "stmt [] = []"
  by (simp add: stmt_def)

lemma stmt_semi [simp]: "stmt (CHR '';'' # x) = '';''"
  by (simp add: stmt_def)

lemma stmt_Cons: "c \<noteq> CHR '';'' \<Longrightarrow> stmt (c # x) = c # stmt x"
  by (simp add: stmt_def)

lemma stmt_run: "CHR '';'' \<notin> set u \<Longrightarrow> stmt (u @ CHR '';'' # z) = u @ '';''"
  by (induction u) (auto simp: stmt_def)

lemma stmt_prefix: "\<exists>z. x = stmt x @ z"
proof -
  let ?d = "dropWhile (\<lambda>c. c \<noteq> CHR '';'') x"
  have "x = takeWhile (\<lambda>c. c \<noteq> CHR '';'') x @ ?d" by simp
  also have "?d = take 1 ?d @ drop 1 ?d" by simp
  finally have "x = stmt x @ drop 1 ?d" by (simp add: stmt_def)
  then show ?thesis ..
qed

lemma ws_no_semi: "ws w \<Longrightarrow> CHR '';'' \<notin> set w"
  by (auto simp: ws_def)

lemma tail_nomatch:
  "tail_rule P tP \<Longrightarrow> \<not> suffix tP (stmt x) \<Longrightarrow> run P x 0 = None"
  unfolding tail_rule_def by (cases "run P x 0") auto

lemma tail_cong:
  assumes P: "tail_rule P tP" and eq: "stmt x = stmt y" and n: "run P x 0 = None"
  shows "run P y 0 = None"
proof (cases "run P y 0")
  case None
  then show ?thesis .
next
  case (Some a)
  obtain ms e where a: "a = (ms, e)" by (cases a)
  from P Some a have t: "take e y = stmt y" and l: "\<forall>z. run P (take e y @ z) 0 = Some (ms, e)"
    unfolding tail_rule_def by blast+
  obtain z where x: "x = stmt x @ z" using stmt_prefix by blast
  from l t eq have "run P (stmt x @ z) 0 = Some (ms, e)" by simp
  with x n show ?thesis by simp
qed

lemma suffix_same_length:
  "suffix a z \<Longrightarrow> suffix b z \<Longrightarrow> length a = length b \<Longrightarrow> a = b"
  by (auto simp: suffix_def)

lemma seg_clean:
  assumes P: "tail_rule P tP" and u: "CHR '';'' \<notin> set u"
    and t: "\<not> suffix tP (u @ '';'')" and k: "k < length (u @ '';'')"
  shows "run P (drop k ((u @ '';'') @ z)) 0 = None"
proof -
  from k have d: "drop k ((u @ '';'') @ z) = drop k u @ CHR '';'' # z" by simp
  from u have "CHR '';'' \<notin> set (drop k u)" by (meson in_set_dropD)
  then have s: "stmt (drop k u @ CHR '';'' # z) = drop k u @ '';''" by (rule stmt_run)
  have "suffix (drop k u @ '';'') (u @ '';'')" by (simp add: suffix_drop)
  with t have "\<not> suffix tP (drop k u @ '';'')" using suffix_order.trans by blast
  with s have "\<not> suffix tP (stmt (drop k u @ CHR '';'' # z))" by simp
  from tail_nomatch [OF P this] d show ?thesis by simp
qed

lemma clean_append:
  assumes "\<forall>k<length x. run P (drop k (x @ y @ z)) 0 = None"
    and "\<forall>k<length y. run P (drop k (y @ z)) 0 = None"
  shows "\<forall>k<length (x @ y). run P (drop k ((x @ y) @ z)) 0 = None"
proof (intro allI impI)
  fix k assume k: "k < length (x @ y)"
  show "run P (drop k ((x @ y) @ z)) 0 = None"
  proof (cases "k < length x")
    case True
    with assms(1) show ?thesis by simp
  next
    case False
    with k have "k - length x < length y" by simp
    with assms(2) have "run P (drop (k - length x) (y @ z)) 0 = None" by blast
    with False show ?thesis by simp
  qed
qed

lemma key_block_segments:
  "key_block w g (t @ '';'') =
   ((w @ ''// Generate BLS key pair\<newline>'' @ w @ ''let secret_key = SecretKey::from_seed(&[0u8'') @ '';'') @
   ('' 32])'' @ '';'') @
   ((CHR ''\<newline>'' # w @ ''let public_key = secret_key.public_key()'') @ '';'') @
   ((CHR ''\<newline>'' # w @ g @ t) @ '';'')"
  by (simp add: key_block_def)

lemma key_block_clean:
  assumes P: "tail_rule P tP" and tP: "tP = ''new();'' \<or> tP = ''new());''"
    and w: "ws w" and g: "CHR '';'' \<notin> set g"
    and t: "t = ''Gun::new(secret_key, public_key)'' \<or> t = ''Gun::new(secret_key, public_key))''"
  shows "\<forall>k<length (key_block w g (t @ '';'')). run P (drop k (key_block w g (t @ '';'') @ z)) 0 = None"
proof -
  let ?u1 = "w @ ''// Generate BLS key pair\<newline>'' @ w @ ''let secret_key = SecretKey::from_seed(&[0u8''"
  let ?u2 = "'' 32])''"
  let ?u3 = "CHR ''\<newline>'' # w @ ''let public_key = secret_key.public_key()''"
  let ?u4 = "CHR ''\<newline>'' # w @ g @ t"
  from w have ws: "CHR '';'' \<notin> set w" by (rule ws_no_semi)
  have s1: "CHR '';'' \<notin> set ?u1" using ws by simp
  have s2: "CHR '';'' \<notin> set ?u2" by simp
  have s3: "CHR '';'' \<notin> set ?u3" using ws by simp
  have s4: "CHR '';'' \<notin> set ?u4" using ws g t by auto
  have n1: "\<not> suffix tP (?u1 @ '';'')" using tP by (auto simp: suffix_to_prefix)
  have n2: "\<not> suffix tP (?u2 @ '';'')" using tP by (auto simp: suffix_to_prefix)
  have n3: "\<not> suffix tP (?u3 @ '';'')" using tP by (auto simp: suffix_to_prefix)
  have n4: "\<not> suffix tP (?u4 @ '';'')" using tP t by (auto simp: suffix_to_prefix)
  note c1 = seg_clean [OF P s1 n1]
  note c2 = seg_clean [OF P s2 n2]
  note c3 = seg_clean [OF P s3 n3]
  note c4 = seg_clean [OF P s4 n4]
  have a: "\<forall>k<length (?u4 @ '';''). run P (drop k ((?u4 @ '';'') @ z)) 0 = None"
    using c4 by blast
  have b: "\<forall>k<length (?u3 @ '';''). run P (drop k ((?u3 @ '';'') @ (?u4 @ '';'') @ z)) 0 = None"
    using c3 by blast
  have c: "\<forall>k<length (?u2 @ '';''). run P (drop k ((?u2 @ '';'') @ ((?u3 @ '';'') @ (?u4 @ '';'')) @ z)) 0 = None"
    using c2 by blast
  have d: "\<forall>k<length (?u1 @ '';''). run P (drop k ((?u1 @ '';'') @ ((?u2 @ '';'') @ (?u3 @ '';'') @ (?u4 @ '';'')) @ z)) 0 = None"
    using c1 by blast
  note e = clean_append [OF b a]
  note f = clean_append [OF c e]
  note h = clean_append [OF d f]
  show ?thesis unfolding key_block_segments using h by (simp only: append_assoc)
qed

lemma pattern_tail_rule: "tail_rule pattern ''new();''"
  unfolding tail_rule_def
proof (intro conjI allI impI)
  show "run pattern [] 0 = None" by code_simp
next
  fix x ms e assume r: "run pattern x 0 = Some (ms, e)"
  from pattern_expand [OF r] obtain w1 g where
    w: "ws w1" and t: "take e x = w1 @ g @ ''Gun::new();''" and g: "CHR '';'' \<notin> set g"
    by blast
  from w have w': "CHR '';'' \<notin> set w1" by (rule ws_no_semi)
  have "x = take e x @ drop e x" by simp
  with t have x: "x = (w1 @ g @ ''Gun::new()'') @ CHR '';'' # drop e x" by simp
  have "CHR '';'' \<notin> set (w1 @ g @ ''Gun::new()'')" using w' g by simp
  from stmt_run [OF this, of "drop e x"] x
  have s: "stmt x = (w1 @ g @ ''Gun::new()'') @ '';''" by simp
  with t show "take e x = stmt x" by simp
  have "stmt x = (w1 @ g @ ''Gun::'') @ ''new();''" unfolding s by simp
  then show "suffix ''new();'' (stmt x)" by (rule suffixI)
  from pattern_local [OF r] show "run pattern (take e x @ y) 0 = Some (ms, e)" for y .
qed

lemma pattern2_tail_rule: "tail_rule pattern2 ''new());''"
  unfolding tail_rule_def
proof (intro conjI allI impI)
  show "run pattern2 [] 0 = None" by code_simp
next
  fix x ms e assume r: "run pattern2 x 0 = Some (ms, e)"
  from pattern2_expand [OF r] obtain w1 g where
    w: "ws w1" and t: "take e x = w1 @ g @ ''Gun::new());''" and g: "CHR '';'' \<notin> set g"
    by blast
  from w have w': "CHR '';'' \<notin> set w1" by (rule ws_no_semi)
  have "x = take e x @ drop e x" by simp
  with t have x: "x = (w1 @ g @ ''Gun::new())'') @ CHR '';'' # drop e x" by simp
  have "CHR '';'' \<notin> set (w1 @ g @ ''Gun::new())'')" using w' g by simp
  from stmt_run [OF this, of "drop e x"] x
  have s: "stmt x = (w1 @ g @ ''Gun::new())'') @ '';''" by simp
  with t show "take e x = stmt x" by simp
  have "stmt x = (w1 @ g @ ''Gun::'') @ ''new());''" unfolding s by simp
  then show "suffix ''new());'' (stmt x)" by (rule suffixI)
  from pattern2_local [OF r] show "run pattern2 (take e x @ y) 0 = Some (ms, e)" for y .
qed

lemma pattern_block_rule: "block_rule pattern replacement"
  unfolding block_rule_def
proof (intro allI impI)
  fix s ms e assume r: "run pattern s 0 = Some (ms, e)"
  from pattern_expand [OF r] obtain w1 g where
    w: "ws w1" and g: "CHR '';'' \<notin> set g"
    and x: "\<forall>y. expand replacement (take e s @ y) ms =
                  key_block w1 g ''Gun::new(secret_key, public_key);''"
    by blast
  from x have "expand replacement (take e s @ drop e s) ms =
      key_block w1 g ''Gun::new(secret_key, public_key);''" by blast
  then have "expand replacement s ms = key_block w1 g (''Gun::new(secret_key, public_key)'' @ '';'')"
    by simp
  with w g have "\<exists>w g t. ws w \<and> CHR '';'' \<notin> set g \<and>
           (t = ''Gun::new(secret_key, public_key)'' \<or>
            t = ''Gun::new(secret_key, public_key))'') \<and>
           expand replacement s ms = key_block w g (t @ '';'')" by blast
  moreover from pattern_pos [OF r] have "0 < e" .
  moreover from run_bounds [OF r] have "e \<le> length s" by simp
  ultimately show "0 < e \<and> e \<le> length s \<and>
        (\<exists>w g t. ws w \<and> CHR '';'' \<notin> set g \<and>
           (t = ''Gun::new(secret_key, public_key)'' \<or>
            t = ''Gun::new(secret_key, public_key))'') \<and>
           expand replacement s ms = key_block w g (t @ '';''))" by blast
qed

lemma pattern2_block_rule: "block_rule pattern2 replacement2"
  unfolding block_rule_def
proof (intro allI impI)
  fix s ms e assume r: "run pattern2 s 0 = Some (ms, e)"
  from pattern2_expand [OF r] obtain w1 g where
    w: "ws w1" and g: "CHR '';'' \<notin> set g"
    and x: "\<forall>y. expand replacement2 (take e s @ y) ms =
                  key_block w1 g ''Gun::new(secret_key, public_key));''"
    by blast
  from x have "expand replacement2 (take e s @ drop e s) ms =
      key_block w1 g ''Gun::new(secret_key, public_key));''" by blast
  then have "expand replacement2 s ms = key_block w1 g (''Gun::new(secret_key, public_key))'' @ '';'')"
    by simp
  with w g have "\<exists>w g t. ws w \<and> CHR '';'' \<notin> set g \<and>
           (t = ''Gun::new(secret_key, public_key)'' \<or>
            t = ''Gun::new(secret_key, public_key))'') \<and>
           expand replacement2 s ms = key_block w g (t @ '';'')" by blast
  moreover from pattern2_pos [OF r] have "0 < e" .
  moreover from run_bounds [OF r] have "e \<le> length s" by simp
  ultimately show "0 < e \<and> e \<le> length s \<and>
        (\<exists>w g t. ws w \<and> CHR '';'' \<notin> set g \<and>
           (t = ''Gun::new(secret_key, public_key)'' \<or>
            t = ''Gun::new(secret_key, public_key))'') \<and>
           expand replacement2 s ms = key_block w g (t @ '';''))" by blast
qed

lemma key_block_stmt:
  assumes "ws w" 
  shows "suffix ''8;'' (stmt (key_block w g (t @ '';'') @ z))"
proof -
  let ?u1 = "w @ ''// Generate BLS key pair\<newline>'' @ w @ ''let secret_key = SecretKey::from_seed(&[0u''"
  from assms have "CHR '';'' \<notin> set w" by (rule ws_no_semi)
  then have "CHR '';'' \<notin> set (?u1 @ ''8'')" by simp
  from stmt_run [OF this]
  have "stmt ((?u1 @ ''8'') @ CHR '';'' # '' 32]);\<newline>'' @ w @ ''let public_key = secret_key.public_key();\<newline>'' @ w @ g @ t @ '';'' @ z) = ?u1 @ ''8;''"
    by simp
  then have "stmt (key_block w g (t @ '';'') @ z) = ?u1 @ ''8;''"
    by (simp add: key_block_def)
  then show ?thesis by (simp add: suffix_def)
qed

text \<open>
  The text between two matches is copied, and a block that replaces a match holds no
  match: so where every match of \<open>P\<close> at a place of the text is a match of \<open>Q\<close> too, the
  text that the rule \<open>Q\<close> produces holds no match of \<open>P\<close>.
\<close>

lemma re_sub_clean:
  assumes P: "tail_rule P tP" and tP: "tP = ''new();'' \<or> tP = ''new());''"
    and Q: "block_rule Q r"
  shows "(\<forall>k. run Q (drop k s) 0 = None \<longrightarrow> run P (drop k s) 0 = None) \<Longrightarrow>
         (\<forall>k. run P (drop k (re_sub Q r s)) 0 = None) \<and>
         (stmt (re_sub Q r s) = stmt s \<or> suffix ''8;'' (stmt (re_sub Q r s)))"
proof (induction s rule: length_induct)
  case (1 s)
  note H = 1(2)
  have IH: "(\<forall>k. run P (drop k (re_sub Q r s')) 0 = None) \<and>
         (stmt (re_sub Q r s') = stmt s' \<or> suffix ''8;'' (stmt (re_sub Q r s')))"
    if "length s' < length s"
      and "\<forall>k. run Q (drop k s') 0 = None \<longrightarrow> run P (drop k s') 0 = None" for s'
    using 1(1) that by blast
  from P have PN: "run P [] 0 = None" unfolding tail_rule_def by blast
  have bad: "\<not> suffix tP z" if "suffix ''8;'' z" for z
  proof
    assume "suffix tP z"
    moreover from tP have "suffix '');'' tP" by (auto simp: suffix_def)
    ultimately have "suffix '');'' z" using suffix_order.trans by blast
    from suffix_same_length [OF this that] show False by simp
  qed
  show ?case
  proof (cases "run Q s 0")
    case None
    show ?thesis
    proof (cases s)
      case Nil
      with None have "re_sub Q r s = []" by (simp add: re_sub_Nil)
      with PN Nil show ?thesis by simp
    next
      case (Cons c cs)
      let ?y = "re_sub Q r cs"
      from None Cons have y: "re_sub Q r s = c # ?y" by (simp add: re_sub_miss)
      have "\<forall>k. run Q (drop k cs) 0 = None \<longrightarrow> run P (drop k cs) 0 = None"
      proof (intro allI impI)
        fix k assume "run Q (drop k cs) 0 = None"
        with H [rule_format, of "Suc k"] Cons show "run P (drop k cs) 0 = None" by simp
      qed
      from IH [OF _ this] Cons
      have N: "\<forall>k. run P (drop k ?y) 0 = None"
        and J: "stmt ?y = stmt cs \<or> suffix ''8;'' (stmt ?y)" by simp_all
      from H [rule_format, of 0] None have P0: "run P s 0 = None" by simp
      have J': "stmt (c # ?y) = stmt (c # cs) \<or> suffix ''8;'' (stmt (c # ?y))"
      proof (cases "c = CHR '';''")
        case True
        then show ?thesis by simp
      next
        case False
        from J show ?thesis
        proof
          assume "stmt ?y = stmt cs"
          with False show ?thesis by (simp add: stmt_Cons)
        next
          assume "suffix ''8;'' (stmt ?y)"
          then have "suffix ''8;'' (c # stmt ?y)" by (rule suffix_ConsI)
          with False show ?thesis by (simp add: stmt_Cons)
        qed
      qed
      have h: "run P (c # ?y) 0 = None"
        using J'
      proof
        assume "stmt (c # ?y) = stmt (c # cs)"
        then have "stmt s = stmt (c # ?y)" using Cons by simp
        from tail_cong [OF P this P0] show ?thesis .
      next
        assume "suffix ''8;'' (stmt (c # ?y))"
        from tail_nomatch [OF P bad [OF this]] show ?thesis .
      qed
      have "run P (drop k (c # ?y)) 0 = None" for k
      proof (cases k)
        case 0
        with h show ?thesis by simp
      next
        case (Suc j)
        with N show ?thesis by simp
      qed
      with J' y Cons show ?thesis by simp
    qed
  next
    case (Some a)
    obtain ms e where a: "a = (ms, e)" by (cases a)
    with Some have r: "run Q s 0 = Some (ms, e)" by simp
    from Q r obtain w g t where e: "0 < e" "e \<le> length s" and w: "ws w"
      and g: "CHR '';'' \<notin> set g"
      and t: "t = ''Gun::new(secret_key, public_key)'' \<or> t = ''Gun::new(secret_key, public_key))''"
      and x: "expand r s ms = key_block w g (t @ '';'')"
      unfolding block_rule_def by blast
    let ?b = "key_block w g (t @ '';'')"
    let ?y = "re_sub Q r (drop e s)"
    from re_sub_hit [OF r e(1)] x have y: "re_sub Q r s = ?b @ ?y" by simp
    have "\<forall>k. run Q (drop k (drop e s)) 0 = None \<longrightarrow> run P (drop k (drop e s)) 0 = None"
    proof (intro allI impI)
      fix k assume "run Q (drop k (drop e s)) 0 = None"
      with H [rule_format, of "k + e"] show "run P (drop k (drop e s)) 0 = None" by simp
    qed
    from IH [OF _ this] e
    have N: "\<forall>k. run P (drop k ?y) 0 = None" by simp
    from key_block_clean [OF P tP w g t]
    have B: "\<forall>k<length ?b. run P (drop k (?b @ ?y)) 0 = None" .
    have "run P (drop k (?b @ ?y)) 0 = None" for k
    proof (cases "k < length ?b")
      case True
      with B show ?thesis by blast
    next
      case False
      with N show ?thesis by simp
    qed
    moreover from key_block_stmt [OF w] have "suffix ''8;'' (stmt (?b @ ?y))" .
    ultimately show ?thesis unfolding y by blast
  qed
qed

lemma re_sub_id:
  "\<forall>k. run P (drop k y) 0 = None \<Longrightarrow> re_sub P r y = y"
proof (induction y)
  case Nil
  then show ?case by (simp add: re_sub_Nil)
next
  case (Cons c cs)
  from Cons(2) [rule_format, of 0] have a: "run P (c # cs) 0 = None" by simp
  have "\<forall>k. run P (drop k cs) 0 = None"
  proof
    fix k from Cons(2) [rule_format, of "Suc k"] show "run P (drop k cs) 0 = None" by simp
  qed
  with Cons(1) have "re_sub P r cs = cs" by blast
  with re_sub_miss [OF a] show ?case by simp
qed

lemma rewrite_new_fixed:
  "re_sub pattern replacement
     (re_sub pattern2 replacement2 (re_sub pattern replacement t)) =
   re_sub pattern2 replacement2 (re_sub pattern replacement t) \<and>
   re_sub pattern2 replacement2
     (re_sub pattern2 replacement2 (re_sub pattern replacement t)) =
   re_sub pattern2 replacement2 (re_sub pattern replacement t)"
proof -
  let ?Y = "re_sub pattern replacement t"
  let ?X = "re_sub pattern2 replacement2 ?Y"
  have 1: "\<forall>k. run pattern (drop k ?Y) 0 = None"
    using re_sub_clean [OF pattern_tail_rule _ pattern_block_rule, of t] by simp
  have 2: "\<forall>k. run pattern2 (drop k ?X) 0 = None"
    using re_sub_clean [OF pattern2_tail_rule _ pattern2_block_rule, of ?Y] by simp
  have 3: "\<forall>k. run pattern (drop k ?X) 0 = None"
    using re_sub_clean [OF pattern_tail_rule _ pattern2_block_rule, of ?Y] 1 by simp
  from re_sub_id [OF 3] re_sub_id [OF 2] show ?thesis by simp
qed

text \<open>
  C3. The pass on \<^verbatim>\<open>Gun::new()\<close> (both rules, the bare one and the one for
  \<^verbatim>\<open>Arc::new(Gun::new())\<close>, under the guard of line 29) run on its own output changes
  nothing: for every text and every value of the flag, the second run returns the text
  and the flag of the first run. No second block of key statements is inserted anywhere,
  since the output of the first run holds no match of either pattern.
\<close>

theorem rewrite_new_idempotent:
  "rewrite_new (rewrite_new (t, u)) = rewrite_new (t, u)"
proof (cases "contains ''Gun::new()'' t")
  case False
  then have "rewrite_new (t, u) = (t, u)" by (simp add: rewrite_new_def)
  then show ?thesis by simp
next
  case True
  let ?X = "re_sub pattern2 replacement2 (re_sub pattern replacement t)"
  from rewrite_new_eq [OF True] obtain u' where a: "rewrite_new (t, u) = (?X, u')"
    by blast
  from rewrite_new_fixed [of t]
  have f: "re_sub pattern replacement ?X = ?X" "re_sub pattern2 replacement2 ?X = ?X"
    by simp_all
  have "rewrite_new (?X, u') = (?X, u')"
  proof (cases "contains ''Gun::new()'' ?X")
    case False
    then show ?thesis by (simp add: rewrite_new_def)
  next
    case True
    from rewrite_new_eq [OF True, of u'] f show ?thesis by simp
  qed
  with a show ?thesis by simp
qed

theorem rewrite_new_idempotent_witness:
  "rewrite_new (''fn main() {\<newline>    let gun = Gun::new();\<newline>}'', False) =
     (''fn main() {\<newline>    // Generate BLS key pair\<newline>\<newline>    let secret_key = SecretKey::from_seed(&[0u8; 32]);\<newline>\<newline>    let public_key = secret_key.public_key();\<newline>\<newline>    let gun = Gun::new(secret_key, public_key);\<newline>}'', True) \<and>
   rewrite_new
     (''fn main() {\<newline>    // Generate BLS key pair\<newline>\<newline>    let secret_key = SecretKey::from_seed(&[0u8; 32]);\<newline>\<newline>    let public_key = secret_key.public_key();\<newline>\<newline>    let gun = Gun::new(secret_key, public_key);\<newline>}'', True) =
     (''fn main() {\<newline>    // Generate BLS key pair\<newline>\<newline>    let secret_key = SecretKey::from_seed(&[0u8; 32]);\<newline>\<newline>    let public_key = secret_key.public_key();\<newline>\<newline>    let gun = Gun::new(secret_key, public_key);\<newline>}'', True)"
proof -
  have a: "rewrite_new (''fn main() {\<newline>    let gun = Gun::new();\<newline>}'', False) =
     (''fn main() {\<newline>    // Generate BLS key pair\<newline>\<newline>    let secret_key = SecretKey::from_seed(&[0u8; 32]);\<newline>\<newline>    let public_key = secret_key.public_key();\<newline>\<newline>    let gun = Gun::new(secret_key, public_key);\<newline>}'', True)"
    by code_simp
  from rewrite_new_idempotent [of "''fn main() {\<newline>    let gun = Gun::new();\<newline>}''" False]
  show ?thesis unfolding a by simp
qed

section \<open>The two rules of the pass, one after the other\<close>

lemma re_sub_skip:
  "\<forall>k<length m. run P (drop k (m @ z)) 0 = None \<Longrightarrow> re_sub P r (m @ z) = m @ re_sub P r z"
proof (induction m)
  case Nil
  then show ?case by simp
next
  case (Cons c m)
  from Cons.prems [rule_format, of 0] have a: "run P (c # m @ z) 0 = None" by simp
  have "\<forall>k<length m. run P (drop k (m @ z)) 0 = None"
  proof (intro allI impI)
    fix k assume "k < length m"
    with Cons.prems [rule_format, of "Suc k"] show "run P (drop k (m @ z)) 0 = None" by simp
  qed
  with Cons.IH have "re_sub P r (m @ z) = m @ re_sub P r z" by blast
  with re_sub_miss [OF a] show ?case by simp
qed

lemma stmt_append_semi: "CHR '';'' \<in> set u \<Longrightarrow> stmt (u @ m) = stmt u"
  by (induction u) (auto simp: stmt_def)

lemma stmt_append_none: "CHR '';'' \<notin> set u \<Longrightarrow> stmt (u @ m) = u @ stmt m"
  by (induction u) (auto simp: stmt_def)

lemma length_stmt: "length (stmt u) \<le> length u"
proof -
  obtain z where "u = stmt u @ z" using stmt_prefix by blast
  then have "length u = length (stmt u) + length z" by (metis length_append)
  then show ?thesis by simp
qed

lemma tail_no_straddle:
  assumes P: "tail_rule P tP" and r: "run P (u @ m) 0 = Some (ms, e)"
    and bad: "suffix bad (stmt m)" "length bad \<le> length tP" "\<not> suffix bad tP"
  shows "e \<le> length u"
proof -
  from P r have t: "take e (u @ m) = stmt (u @ m)" and s: "suffix tP (stmt (u @ m))"
    unfolding tail_rule_def by blast+
  from run_bounds [OF r] have "e \<le> length (u @ m)" by simp
  then have e: "e = length (stmt (u @ m))" using t by (metis length_take min.absorb2)
  show ?thesis
  proof (cases "CHR '';'' \<in> set u")
    case True
    then have "stmt (u @ m) = stmt u" by (rule stmt_append_semi)
    with e length_stmt [of u] show ?thesis by simp
  next
    case False
    then have "stmt (u @ m) = u @ stmt m" by (rule stmt_append_none)
    with bad(1) have "suffix bad (stmt (u @ m))" by (simp add: suffix_appendI)
    from suffix_length_suffix [OF this s bad(2)] bad(3) show ?thesis by simp
  qed
qed

text \<open>
  A piece of text in which no match begins, and whose first statement cannot end a match,
  is copied; the text before it and the text after it are rewritten on their own.
\<close>

lemma re_sub_around:
  assumes P: "tail_rule P tP"
    and pos: "\<And>s ms e. run P s 0 = Some (ms, e) \<Longrightarrow> 0 < e"
    and exp: "\<And>s ms e y. run P s 0 = Some (ms, e) \<Longrightarrow> expand r (take e s @ y) ms = expand r s ms"
    and bad: "suffix bad (stmt (m @ b))" "length bad \<le> length tP" "\<not> suffix bad tP"
    and clean: "\<forall>k<length m. run P (drop k (m @ b)) 0 = None"
  shows "re_sub P r (a @ m @ b) = re_sub P r a @ m @ re_sub P r b"
proof -
  have "re_sub P r (a @ m @ b) = re_sub P r a @ re_sub P r (m @ b)"
  proof (rule re_sub_split [where pre = a])
    show "suffix a a" by simp
  next
    fix s ms e y assume "run P s 0 = Some (ms, e)"
    with P show "run P (take e s @ y) 0 = Some (ms, e)" unfolding tail_rule_def by blast
  next
    fix u ms e assume "run P (u @ m @ b) 0 = Some (ms, e)"
    from tail_no_straddle [OF P this bad] show "e \<le> length u" .
  qed (simp_all add: pos exp)
  with re_sub_skip [OF clean] show ?thesis by simp
qed

lemma re_sub_last:
  assumes Q: "tail_rule Q tQ" and tQ: "tQ = ''new();'' \<or> tQ = ''new());''"
    and B: "block_rule Q r"
  shows "(s = [] \<longrightarrow> re_sub Q r s = []) \<and>
         (s \<noteq> [] \<longrightarrow> re_sub Q r s \<noteq> [] \<and> last (re_sub Q r s) = last s)"
proof (induction s rule: length_induct)
  case (1 s)
  have IH: "(s' = [] \<longrightarrow> re_sub Q r s' = []) \<and>
         (s' \<noteq> [] \<longrightarrow> re_sub Q r s' \<noteq> [] \<and> last (re_sub Q r s') = last s')"
    if "length s' < length s" for s'
    using 1 that by blast
  from Q have QN: "run Q [] 0 = None" unfolding tail_rule_def by blast
  show ?case
  proof (cases "run Q s 0")
    case None
    show ?thesis
    proof (cases s)
      case Nil
      with QN show ?thesis by (simp add: re_sub_Nil)
    next
      case (Cons c cs)
      from None Cons have y: "re_sub Q r s = c # re_sub Q r cs" by (simp add: re_sub_miss)
      from IH [of cs] Cons show ?thesis unfolding y by (cases "cs = []") simp_all
    qed
  next
    case (Some a)
    obtain ms e where a: "a = (ms, e)" by (cases a)
    with Some have r: "run Q s 0 = Some (ms, e)" by simp
    from B r obtain w g t where e: "0 < e" "e \<le> length s"
      and x: "expand r s ms = key_block w g (t @ '';'')"
      unfolding block_rule_def by blast
    let ?b = "key_block w g (t @ '';'')"
    from re_sub_hit [OF r e(1)] x have y: "re_sub Q r s = ?b @ re_sub Q r (drop e s)" by simp
    have b: "?b \<noteq> []" "last ?b = CHR '';''" by (simp_all add: key_block_def)
    from e have s: "s \<noteq> []" by auto
    show ?thesis
    proof (cases "drop e s = []")
      case True
      with QN have "re_sub Q r (drop e s) = []" by (simp add: re_sub_Nil)
      with y have y': "re_sub Q r s = ?b" by simp
      from True e have "take e s = s" by simp
      with Q r have "suffix tQ (stmt s)" "s = stmt s" unfolding tail_rule_def by metis+
      then have "suffix tQ s" by simp
      then obtain p where "s = p @ tQ" by (auto simp: suffix_def)
      with tQ have "last s = CHR '';''" by auto
      with y' b s show ?thesis by simp
    next
      case False
      from e s have "length (drop e s) < length s" by simp
      from IH [OF this] False
      have "re_sub Q r (drop e s) \<noteq> []" "last (re_sub Q r (drop e s)) = last (drop e s)"
        by simp_all
      moreover from False have "last (drop e s) = last s" by simp
      ultimately show ?thesis using s unfolding y by simp
    qed
  qed
qed

lemma re_sub_edge:
  assumes "tail_rule Q tQ" and "tQ = ''new();'' \<or> tQ = ''new());''" and "block_rule Q r"
    and "edge s"
  shows "edge (re_sub Q r s)"
  using re_sub_last [OF assms(1,2,3), of s] assms(4) by (auto simp: edge_def)

lemma re_sub_length:
  assumes grow: "\<And>s ms e. run Q s 0 = Some (ms, e) \<Longrightarrow> 0 < e \<and> e \<le> length (expand r s ms)"
  shows "length s \<le> length (re_sub Q r s)"
proof (induction s rule: length_induct)
  case (1 s)
  show ?case
  proof (cases "run Q s 0")
    case None
    show ?thesis
    proof (cases s)
      case Nil
      then show ?thesis by simp
    next
      case (Cons c cs)
      from None Cons have "re_sub Q r s = c # re_sub Q r cs" by (simp add: re_sub_miss)
      with 1 Cons show ?thesis by simp
    qed
  next
    case (Some a)
    obtain ms e where a: "a = (ms, e)" by (cases a)
    with Some have r: "run Q s 0 = Some (ms, e)" by simp
    from grow [OF r] have e: "0 < e" "e \<le> length (expand r s ms)" by simp_all
    from run_bounds [OF r] have le: "e \<le> length s" by simp
    with e have "length (drop e s) < length s" by simp
    with 1 have "length (drop e s) \<le> length (re_sub Q r (drop e s))" by blast
    with re_sub_hit [OF r e(1)] e(2) le show ?thesis by simp
  qed
qed

lemma pattern_grow:
  assumes "run pattern s 0 = Some (ms, e)"
  shows "0 < e \<and> e \<le> length (expand replacement s ms)"
proof -
  from pattern_expand [OF assms] obtain w1 g where
    t: "take e s = w1 @ g @ ''Gun::new();''"
    and x: "\<forall>y. expand replacement (take e s @ y) ms =
                  key_block w1 g ''Gun::new(secret_key, public_key);''"
    by blast
  from x have "expand replacement (take e s @ drop e s) ms =
      key_block w1 g ''Gun::new(secret_key, public_key);''" by blast
  then have x': "expand replacement s ms = key_block w1 g ''Gun::new(secret_key, public_key);''"
    by simp
  from run_bounds [OF assms] have "e \<le> length s" by simp
  then have "e = length (take e s)" by simp
  also have "\<dots> = length w1 + length g + 11" unfolding t by simp
  finally have "e \<le> length (expand replacement s ms)"
    unfolding x' by (simp add: key_block_def)
  with pattern_pos [OF assms] show ?thesis by simp
qed

lemma pattern2_grow:
  assumes "run pattern2 s 0 = Some (ms, e)"
  shows "0 < e \<and> e \<le> length (expand replacement2 s ms)"
proof -
  from pattern2_expand [OF assms] obtain w1 g where
    t: "take e s = w1 @ g @ ''Gun::new());''"
    and x: "\<forall>y. expand replacement2 (take e s @ y) ms =
                  key_block w1 g ''Gun::new(secret_key, public_key));''"
    by blast
  from x have "expand replacement2 (take e s @ drop e s) ms =
      key_block w1 g ''Gun::new(secret_key, public_key));''" by blast
  then have x': "expand replacement2 s ms = key_block w1 g ''Gun::new(secret_key, public_key));''"
    by simp
  from run_bounds [OF assms] have "e \<le> length s" by simp
  then have "e = length (take e s)" by simp
  also have "\<dots> = length w1 + length g + 12" unfolding t by simp
  finally have "e \<le> length (expand replacement2 s ms)"
    unfolding x' by (simp add: key_block_def)
  with pattern2_pos [OF assms] show ?thesis by simp
qed

lemma contains_drop: "contains p (drop k x) \<Longrightarrow> contains p x"
proof -
  assume "contains p (drop k x)"
  then have "contains p (take k x @ drop k x @ [])" by (rule contains_appendI)
  then show ?thesis by simp
qed

lemma no_call_no_match:
  assumes "\<not> contains ''Gun::new()'' x"
  shows "run pattern (drop k x) 0 = None \<and> run pattern2 (drop k x) 0 = None"
proof -
  have "run pattern (drop k x) 0 = None"
  proof (cases "run pattern (drop k x) 0")
    case (Some a)
    obtain ms e where "a = (ms, e)" by (cases a)
    with Some pattern_shape [of "drop k x" 0 ms e] obtain w1 g r where
      "drop k x = (w1 @ g) @ ''Gun::new()'' @ (CHR '';'' # r)" by auto
    then have "contains ''Gun::new()'' (drop k x)" unfolding contains_iff by blast
    with assms contains_drop show ?thesis by blast
  qed simp
  moreover have "run pattern2 (drop k x) 0 = None"
  proof (cases "run pattern2 (drop k x) 0")
    case (Some a)
    obtain ms e where "a = (ms, e)" by (cases a)
    with Some pattern_shape_arc [of "drop k x" 0 ms e] obtain w1 g r where
      "drop k x = (w1 @ g) @ ''Gun::new()'' @ ('');'' @ r)" by auto
    then have "contains ''Gun::new()'' (drop k x)" unfolding contains_iff by blast
    with assms contains_drop show ?thesis by blast
  qed simp
  ultimately show ?thesis ..
qed

lemma rewrite_new_fst:
  "fst (rewrite_new (x, v)) = re_sub pattern2 replacement2 (re_sub pattern replacement x)"
proof (cases "contains ''Gun::new()'' x")
  case True
  from rewrite_new_eq [OF this] show ?thesis by simp
next
  case False
  from no_call_no_match [OF this] have "\<forall>k. run pattern (drop k x) 0 = None"
    "\<forall>k. run pattern2 (drop k x) 0 = None" by simp_all
  then have "re_sub pattern replacement x = x" "re_sub pattern2 replacement2 x = x"
    by (simp_all add: re_sub_id)
  with False show ?thesis by (simp add: rewrite_new_def)
qed

lemma longer_neq: "length a < length b \<Longrightarrow> b \<noteq> a"
  by auto

lemma rewrite_new_changed:
  assumes c: "contains ''Gun::new()'' t"
    and x: "re_sub pattern2 replacement2 (re_sub pattern replacement t) = X"
    and n: "re_sub pattern replacement t \<noteq> t \<or> X \<noteq> re_sub pattern replacement t"
  shows "rewrite_new (t, u) = (X, True)"
  using rewrite_new_eq [OF c, of u] x n by auto

lemma key_block_semi:
  "key_block w g ''Gun::new(secret_key, public_key);'' =
     key_block w g (''Gun::new(secret_key, public_key)'' @ '';'')"
  "key_block w g ''Gun::new(secret_key, public_key));'' =
     key_block w g (''Gun::new(secret_key, public_key))'' @ '';'')"
  by simp_all

lemma bare_stmt_no_semi:
  "ws w2 \<Longrightarrow> ws w3 \<Longrightarrow> ws w4 \<Longrightarrow> CHR '';'' \<notin> set (bare_stmt w2 w3 w4)"
  by (auto simp: bare_stmt_def dest: ws_no_semi)

lemma wd_no_semi: "wd v \<Longrightarrow> CHR '';'' \<notin> set v"
  by (auto simp: wd_def)

lemma arc_stmt_no_semi:
  "ws w2 \<Longrightarrow> wd v \<Longrightarrow> ws w3 \<Longrightarrow> ws w4 \<Longrightarrow> CHR '';'' \<notin> set (arc_stmt w2 v w3 w4)"
  by (auto simp: arc_stmt_def dest: ws_no_semi wd_no_semi)

lemma rewrite_new_bare_site:
  assumes w: "ws w1" "w1 \<noteq> []" "ws w2" "w2 \<noteq> []" "ws w3" "ws w4"
    and pre: "edge pre"
  shows "rewrite_new (pre @ w1 @ bare_stmt w2 w3 w4 @ ''Gun::new();'' @ post, u) =
         (fst (rewrite_new (pre, u)) @
          key_block w1 (bare_stmt w2 w3 w4) ''Gun::new(secret_key, public_key);'' @
          fst (rewrite_new (post, u)), True)"
proof -
  let ?g = "bare_stmt w2 w3 w4"
  let ?t = "pre @ w1 @ ?g @ ''Gun::new();'' @ post"
  let ?b = "key_block w1 ?g (''Gun::new(secret_key, public_key)'' @ '';'')"
  let ?A = "re_sub pattern replacement pre"
  let ?B = "re_sub pattern replacement post"
  have "?t = (pre @ w1 @ ?g) @ ''Gun::new()'' @ (CHR '';'' # post)" by simp
  then have c: "contains ''Gun::new()'' ?t" unfolding contains_iff by blast
  from re_sub_bare_split [OF w pre, of post]
  have y: "re_sub pattern replacement ?t = ?A @ ?b @ ?B" by simp
  from w have g: "CHR '';'' \<notin> set ?g" by (simp add: bare_stmt_no_semi)
  have x: "re_sub pattern2 replacement2 (?A @ ?b @ ?B) =
        re_sub pattern2 replacement2 ?A @ ?b @ re_sub pattern2 replacement2 ?B"
  proof (rule re_sub_around [OF pattern2_tail_rule, where bad = "''8;''"])
    show "suffix ''8;'' (stmt (?b @ ?B))" using w(1) by (rule key_block_stmt)
    show "\<forall>k<length ?b. run pattern2 (drop k (?b @ ?B)) 0 = None"
      by (rule key_block_clean [OF pattern2_tail_rule _ w(1) g]) simp_all
  qed (simp_all add: pattern2_pos pattern2_expand_eq suffix_to_prefix)
  have "length pre \<le> length ?A" "length post \<le> length ?B"
    by (rule re_sub_length, rule pattern_grow, assumption)+
  then have "length ?t < length (?A @ ?b @ ?B)"
    by (simp add: key_block_def)
  then have "?A @ ?b @ ?B \<noteq> ?t" by (rule longer_neq)
  then have n: "re_sub pattern replacement ?t \<noteq> ?t" unfolding y .
  from x have x': "re_sub pattern2 replacement2 (re_sub pattern replacement ?t) =
      re_sub pattern2 replacement2 ?A @ ?b @ re_sub pattern2 replacement2 ?B"
    unfolding y .
  from n have "re_sub pattern replacement ?t \<noteq> ?t \<or>
      re_sub pattern2 replacement2 ?A @ ?b @ re_sub pattern2 replacement2 ?B \<noteq>
      re_sub pattern replacement ?t" ..
  from rewrite_new_changed [OF c x' this, of u] show ?thesis
    by (simp add: rewrite_new_fst)
qed

lemma rewrite_new_arc_site:
  assumes w: "ws w1" "w1 \<noteq> []" "ws w2" "w2 \<noteq> []" "wd v" "v \<noteq> []" "ws w3" "ws w4"
    and pre: "edge pre"
  shows "rewrite_new (pre @ w1 @ arc_stmt w2 v w3 w4 @ ''Gun::new());'' @ post, u) =
         (fst (rewrite_new (pre, u)) @
          key_block w1 (arc_stmt w2 v w3 w4) ''Gun::new(secret_key, public_key));'' @
          fst (rewrite_new (post, u)), True)"
proof -
  let ?g = "arc_stmt w2 v w3 w4"
  let ?u = "w1 @ ?g @ ''Gun::new())''"
  let ?m = "?u @ '';''"
  let ?t = "pre @ ?m @ post"
  let ?b = "key_block w1 ?g ''Gun::new(secret_key, public_key));''"
  let ?A = "re_sub pattern replacement pre"
  let ?B = "re_sub pattern replacement post"
  have "?t = (pre @ w1 @ ?g) @ ''Gun::new()'' @ ('');'' @ post)" by simp
  then have c: "contains ''Gun::new()'' ?t" unfolding contains_iff by blast
  from w have g: "CHR '';'' \<notin> set ?g" by (simp add: arc_stmt_no_semi)
  with w(1) have u: "CHR '';'' \<notin> set ?u" by (auto dest: ws_no_semi)
  have y: "re_sub pattern replacement (pre @ ?m @ post) = ?A @ ?m @ ?B"
  proof (rule re_sub_around [OF pattern_tail_rule, where bad = "''));''"])
    from stmt_run [OF u, of post] have "stmt (?m @ post) = ?u @ '';''" by simp
    also have "\<dots> = (w1 @ ?g @ ''Gun::new('') @ ''));''" by simp
    finally show "suffix ''));'' (stmt (?m @ post))" by (simp only: suffixI)
    have "\<not> suffix ''new();'' (?u @ '';'')" by (simp add: suffix_to_prefix)
    from seg_clean [OF pattern_tail_rule u this]
    show "\<forall>k<length ?m. run pattern (drop k (?m @ post)) 0 = None" by blast
  qed (simp_all add: pattern_pos pattern_expand_eq suffix_to_prefix)
  from re_sub_edge [OF pattern_tail_rule _ pattern_block_rule pre] have A: "edge ?A" by simp
  from re_sub_arc_split [OF w A, of ?B]
  have x: "re_sub pattern2 replacement2 (?A @ ?m @ ?B) =
        re_sub pattern2 replacement2 ?A @ ?b @ re_sub pattern2 replacement2 ?B" by simp
  have "length ?A \<le> length (re_sub pattern2 replacement2 ?A)"
    "length ?B \<le> length (re_sub pattern2 replacement2 ?B)"
    by (rule re_sub_length, rule pattern2_grow, assumption)+
  then have "length (?A @ ?m @ ?B) <
      length (re_sub pattern2 replacement2 ?A @ ?b @ re_sub pattern2 replacement2 ?B)"
    by (simp add: key_block_def)
  then have "re_sub pattern2 replacement2 ?A @ ?b @ re_sub pattern2 replacement2 ?B \<noteq>
      ?A @ ?m @ ?B" by (rule longer_neq)
  then have n: "re_sub pattern2 replacement2 (?A @ ?m @ ?B) \<noteq> ?A @ ?m @ ?B"
    unfolding x .
  from x have x': "re_sub pattern2 replacement2 (re_sub pattern replacement ?t) =
      re_sub pattern2 replacement2 ?A @ ?b @ re_sub pattern2 replacement2 ?B"
    unfolding y .
  from n have "re_sub pattern2 replacement2 ?A @ ?b @ re_sub pattern2 replacement2 ?B \<noteq>
      re_sub pattern replacement ?t" unfolding x y .
  then have "re_sub pattern replacement ?t \<noteq> ?t \<or>
      re_sub pattern2 replacement2 ?A @ ?b @ re_sub pattern2 replacement2 ?B \<noteq>
      re_sub pattern replacement ?t" ..
  from rewrite_new_changed [OF c x' this, of u] show ?thesis
    by (simp add: rewrite_new_fst)
qed

text \<open>
  C6, as the code has it. The rule for the bare call names the variable: the pass rewrites
  a binding \<^verbatim>\<open>let gun = Gun::new();\<close> of the variable \<^verbatim>\<open>gun\<close>. The rule for the wrapped call
  takes any identifier: the pass rewrites \<^verbatim>\<open>let name = Arc::new(Gun::new());\<close>. In both,
  the binding stands after a run \<open>w\<close> of one or more white space characters, the whole run
  that precedes \<^verbatim>\<open>let\<close>, and \<open>w2\<close>, \<open>w3\<close>, \<open>w4\<close> are the white space after \<^verbatim>\<open>let\<close> (at least
  one character), before and after \<^verbatim>\<open>=\<close>. The pass, both rules run one after the other
  under the guard of line 29, replaces the binding by \<open>w\<close> and the comment, \<open>w\<close> and the
  secret key made from the seed \<^verbatim>\<open>[0u8; 32]\<close>, \<open>w\<close> and the public key derived from it, \<open>w\<close>
  and the binding as it was written, with both keys passed to the constructor (inside the
  wrapper, which is kept). The text before and the text after are what the pass makes of
  them on their own, and the flag \<open>updated\<close> is set.
\<close>

theorem gun_binding_rewritten:
  assumes "\<forall>c \<in> set w. is_space c" and "w \<noteq> []"
    and "\<forall>c \<in> set w2. is_space c" and "w2 \<noteq> []"
    and "\<forall>c \<in> set w3. is_space c" and "\<forall>c \<in> set w4. is_space c"
    and "pre = [] \<or> \<not> is_space (last pre)"
    and "\<forall>c \<in> set name. is_word c" and "name \<noteq> []"
  shows "rewrite_new
           (pre @ w @ ''let'' @ w2 @ ''gun'' @ w3 @ ''='' @ w4 @ ''Gun::new();'' @ post, u) =
         (fst (rewrite_new (pre, u)) @
          w @ ''// Generate BLS key pair\<newline>'' @
          w @ ''let secret_key = SecretKey::from_seed(&[0u8; 32]);\<newline>'' @
          w @ ''let public_key = secret_key.public_key();\<newline>'' @
          w @ ''let'' @ w2 @ ''gun'' @ w3 @ ''='' @ w4 @ ''Gun::new(secret_key, public_key);'' @
          fst (rewrite_new (post, u)), True)
       \<and>
         rewrite_new
           (pre @ w @ ''let'' @ w2 @ name @ w3 @ ''='' @ w4 @ ''Arc::new(Gun::new());'' @ post, u) =
         (fst (rewrite_new (pre, u)) @
          w @ ''// Generate BLS key pair\<newline>'' @
          w @ ''let secret_key = SecretKey::from_seed(&[0u8; 32]);\<newline>'' @
          w @ ''let public_key = secret_key.public_key();\<newline>'' @
          w @ ''let'' @ w2 @ name @ w3 @ ''='' @ w4 @
            ''Arc::new(Gun::new(secret_key, public_key));'' @
          fst (rewrite_new (post, u)), True)"
proof -
  from assms have w: "ws w" "ws w2" "ws w3" "ws w4" "edge pre" "wd name"
    by (simp_all add: ws_def wd_def edge_def)
  from rewrite_new_bare_site [OF w(1) assms(2) w(2) assms(4) w(3) w(4) w(5), of post u]
  have 1: "rewrite_new
           (pre @ w @ ''let'' @ w2 @ ''gun'' @ w3 @ ''='' @ w4 @ ''Gun::new();'' @ post, u) =
         (fst (rewrite_new (pre, u)) @
          w @ ''// Generate BLS key pair\<newline>'' @
          w @ ''let secret_key = SecretKey::from_seed(&[0u8; 32]);\<newline>'' @
          w @ ''let public_key = secret_key.public_key();\<newline>'' @
          w @ ''let'' @ w2 @ ''gun'' @ w3 @ ''='' @ w4 @ ''Gun::new(secret_key, public_key);'' @
          fst (rewrite_new (post, u)), True)"
    by (simp add: bare_stmt_def key_block_def)
  from rewrite_new_arc_site
    [OF w(1) assms(2) w(2) assms(4) w(6) assms(9) w(3) w(4) w(5), of post u]
  have 2: "rewrite_new
           (pre @ w @ ''let'' @ w2 @ name @ w3 @ ''='' @ w4 @ ''Arc::new(Gun::new());'' @ post, u) =
         (fst (rewrite_new (pre, u)) @
          w @ ''// Generate BLS key pair\<newline>'' @
          w @ ''let secret_key = SecretKey::from_seed(&[0u8; 32]);\<newline>'' @
          w @ ''let public_key = secret_key.public_key();\<newline>'' @
          w @ ''let'' @ w2 @ name @ w3 @ ''='' @ w4 @
            ''Arc::new(Gun::new(secret_key, public_key));'' @
          fst (rewrite_new (post, u)), True)"
    by (simp add: arc_stmt_def key_block_def)
  from 1 2 show ?thesis by (rule conjI)
qed

theorem gun_binding_rewritten_witness:
  "rewrite_new (''{ let  gun= Gun::new(); }'', False) =
     (''{ // Generate BLS key pair\<newline> let secret_key = SecretKey::from_seed(&[0u8; 32]);\<newline> let public_key = secret_key.public_key();\<newline> let  gun= Gun::new(secret_key, public_key); }'', True) \<and>
   rewrite_new (''{ let  db= Arc::new(Gun::new()); }'', False) =
     (''{ // Generate BLS key pair\<newline> let secret_key = SecretKey::from_seed(&[0u8; 32]);\<newline> let public_key = secret_key.public_key();\<newline> let  db= Arc::new(Gun::new(secret_key, public_key)); }'', True)"
proof -
  have s1: "\<forall>c \<in> set '' ''. is_space c" by (simp add: is_space_def)
  have s2: "\<forall>c \<in> set ''  ''. is_space c" by (simp add: is_space_def)
  have s0: "\<forall>c \<in> set ''''. is_space c" by simp
  have n: "\<forall>c \<in> set ''db''. is_word c" by (simp add: is_word_def)
  have e: "''{'' = [] \<or> \<not> is_space (last ''{'')" by (simp add: is_space_def)
  have 4: "fst (rewrite_new (''{'', False)) = ''{''" by code_simp
  have 5: "fst (rewrite_new ('' }'', False)) = '' }''" by code_simp
  from gun_binding_rewritten [OF s1 _ s2 _ s0 s1 e n, of "'' }''" False] show ?thesis
    unfolding 4 5 by simp
qed

theorem binding_not_rewritten_counterexample:
  "rewrite_new (''fn main() {\<newline>    let client = Gun::new();\<newline>}'', False) =
     (''fn main() {\<newline>    let client = Gun::new();\<newline>}'', False) \<and>
   rewrite_new (''fn main() {let gun = Gun::new();}'', False) =
     (''fn main() {let gun = Gun::new();}'', False)"
  by code_simp

section \<open>A block of lines that the pass on \<^verbatim>\<open>Gun::with_options(\<close> keeps\<close>







lemma re_search_SomeD:
  "re_search p s pos = Some m \<Longrightarrow> \<exists>k\<le>length s. run p (drop k s) (pos + k) = Some m"
proof (induction s arbitrary: pos)
  case Nil
  then show ?case by simp
next
  case (Cons c cs)
  show ?case
  proof (cases "run p (c # cs) pos")
    case None
    with Cons.prems have "re_search p cs (Suc pos) = Some m" by simp
    from Cons.IH [OF this] obtain k where "k \<le> length cs"
      "run p (drop k cs) (Suc pos + k) = Some m" by blast
    then have "Suc k \<le> length (c # cs) \<and> run p (drop (Suc k) (c # cs)) (pos + Suc k) = Some m"
      by simp
    then show ?thesis by blast
  next
    case (Some a)
    with Cons.prems have "run p (drop 0 (c # cs)) (pos + 0) = Some m" by simp
    then show ?thesis by blast
  qed
qed

lemma run_LitD:
  "run (Lit l # ts) s n = Some m \<Longrightarrow>
   startswith l s \<and> run ts (drop (length l) s) (n + length l) = Some m"
  by (simp split: if_splits)

lemma run_MarkD:
  "run (Mark # ts) s n = Some (ms, e) \<Longrightarrow> \<exists>ms'. ms = n # ms' \<and> run ts s n = Some (ms', e)"
  by (auto split: option.splits)

lemma run_RepD:
  assumes "run (Rep mn c # ts) s n = Some m"
  shows "\<exists>j. mn \<le> j \<and> j \<le> length (takeWhile (in_cset c) s) \<and> run ts (drop j s) (n + j) = Some m"
proof -
  from assms have "first_some (map (\<lambda>j. run ts (drop j s) (n + j))
      (rev [mn ..< Suc (length (takeWhile (in_cset c) s))])) = Some m"
    by (simp only: run.simps)
  from first_some_SomeD [OF this] show ?thesis by auto
qed

lemma options_group_word:
  assumes "re_search options_pattern line 0 = Some (ms, e)"
  shows "wd (group line ms 1)"
proof -
  from re_search_SomeD [OF assms] obtain k where
    "run options_pattern (drop k line) k = Some (ms, e)" by auto
  then have r: "run (Lit ''Gun::with_options('' # [Mark, Rep 1 WordCh, Mark, Lit '')''])
      (drop k line) k = Some (ms, e)"
    by (simp only: options_pattern_def)
  define s1 where "s1 = drop (length ''Gun::with_options('') (drop k line)"
  define n1 where "n1 = k + length ''Gun::with_options(''"
  from run_LitD [OF r] have "run (Mark # [Rep 1 WordCh, Mark, Lit '')'']) s1 n1 = Some (ms, e)"
    unfolding s1_def n1_def by blast
  from run_MarkD [OF this] obtain ms' where ms: "ms = n1 # ms'"
    and r2: "run (Rep 1 WordCh # [Mark, Lit '')'']) s1 n1 = Some (ms', e)" by blast
  from run_RepD [OF r2] obtain j where j: "j \<le> length (takeWhile is_word s1)"
    and r3: "run (Mark # [Lit '')'']) (drop j s1) (n1 + j) = Some (ms', e)" by auto
  from run_MarkD [OF r3] obtain ms'' where ms': "ms' = (n1 + j) # ms''"
    and r4: "run (Lit '')'' # []) (drop j s1) (n1 + j) = Some (ms'', e)" by blast
  from run_LitD [OF r4] have ms'': "ms'' = []" by simp
  have "group line ms 1 = take j (drop n1 line)"
    unfolding ms ms' ms'' by (simp add: group_def slice_def)
  also have "drop n1 line = s1" unfolding s1_def n1_def by (simp add: add.commute)
  also have "take j s1 = take j (takeWhile is_word s1 @ dropWhile is_word s1)" by simp
  also have "\<dots> = take j (takeWhile is_word s1)" using j by (simp del: takeWhile_dropWhile_id)
  finally have "set (group line ms 1) \<subseteq> set (takeWhile is_word s1)"
    by (simp add: set_take_subset)
  then show ?thesis unfolding wd_def by (auto dest: set_takeWhileD)
qed

lemma str_replace_step_hit:
  "old \<noteq> [] \<Longrightarrow> s \<noteq> [] \<Longrightarrow> startswith old s \<Longrightarrow>
   str_replace old new s = new @ str_replace old new (drop (length old) s)"
  by (cases s) (simp_all add: str_replace.simps)

lemma str_replace_step_miss:
  "old \<noteq> [] \<Longrightarrow> \<not> startswith old (c # cs) \<Longrightarrow>
   str_replace old new (c # cs) = c # str_replace old new cs"
  by (simp add: str_replace.simps)






section \<open>The call site through the three passes\<close>






text \<open>
  Where the statement begins its line, the white space that the first group of the pattern
  takes begins with the line break of the line before. The template writes a line break
  and then the group again, so in the output an empty line stands between the comment, the
  two key statements and the binding.
\<close>

lemma statement_on_its_own_line:
  "transform ''use gun::Gun;\<newline>\<newline>fn main() {\<newline>    let gun = Gun::new();\<newline>}'' =
     (''use gun::Gun;\<newline>use chia_bls::{SecretKey, PublicKey};\<newline>\<newline>fn main() {\<newline>    // Generate BLS key pair\<newline>\<newline>    let secret_key = SecretKey::from_seed(&[0u8; 32]);\<newline>\<newline>    let public_key = secret_key.public_key();\<newline>\<newline>    let gun = Gun::new(secret_key, public_key);\<newline>}'', True)"
  by code_simp




section \<open>The occurrences of the import line\<close>

text \<open>
  The number of places of a text at which a given text begins; for the import line, which
  cannot overlap itself, this is what \<^verbatim>\<open>content.count(line)\<close> returns.
\<close>

fun occurrences :: "string \<Rightarrow> string \<Rightarrow> nat" where
  "occurrences p [] = 0"
| "occurrences p (c # cs) = (if startswith p (c # cs) then 1 else 0) + occurrences p cs"

definition import_line :: string where
  "import_line = ''use chia_bls::{SecretKey, PublicKey};''"

text \<open>
  A piece of text is sealed when, wherever it stands, no occurrence of the import line
  begins in it and no end part of the import line begins at its first character.
\<close>

definition sealed :: "string \<Rightarrow> bool" where
  "sealed x =
     (\<forall>z. (\<forall>q. q \<noteq> [] \<longrightarrow> suffix q import_line \<longrightarrow> \<not> startswith q (x @ z)) \<and>
          (\<forall>k<length x. \<not> startswith import_line (drop k (x @ z))))"

lemma startswith_Cons: "startswith (a # p) (c # s) = (a = c \<and> startswith p s)"
  by (auto simp: startswith_def)

lemma startswith_Nil [simp]: "startswith [] s"
  by (simp add: startswith_def)

lemma occ_sealed:
  "\<forall>k<length x. \<not> startswith p (drop k (x @ z)) \<Longrightarrow> occurrences p (x @ z) = occurrences p z"
proof (induction x)
  case Nil
  show ?case by simp
next
  case (Cons c x)
  from Cons.prems [rule_format, of 0] have a: "\<not> startswith p (c # x @ z)" by simp
  have "\<forall>k<length x. \<not> startswith p (drop k (x @ z))"
  proof (intro allI impI)
    fix k assume "k < length x"
    with Cons.prems [rule_format, of "Suc k"] show "\<not> startswith p (drop k (x @ z))" by simp
  qed
  with Cons.IH a show ?case by simp
qed

lemma suffix_import_semi:
  assumes "suffix q import_line" and "q \<noteq> []"
  shows "\<exists>q'. q = q' @ '';'' \<and> CHR '';'' \<notin> set q'"
proof -
  from assms(1) obtain a where a: "import_line = a @ q" by (auto simp: suffix_def)
  have "last import_line = last q" unfolding a using assms(2) by simp
  then have l: "last q = CHR '';''" by (simp add: import_line_def)
  have "butlast import_line = a @ butlast q" unfolding a using assms(2)
    by (simp add: butlast_append)
  then have "set (butlast q) \<subseteq> set (butlast import_line)" by simp
  moreover have "CHR '';'' \<notin> set (butlast import_line)" by (simp add: import_line_def)
  ultimately have "CHR '';'' \<notin> set (butlast q)" by blast
  moreover from assms(2) l have "q = butlast q @ '';''"
    by (metis append_butlast_last_id)
  ultimately show ?thesis by blast
qed

lemma startswith_stmt:
  assumes "CHR '';'' \<notin> set q'" and "startswith (q' @ '';'') y"
  shows "stmt y = q' @ '';''"
proof -
  from assms(2) obtain r where "y = (q' @ '';'') @ r" unfolding startswith_iff by blast
  then have "y = q' @ CHR '';'' # r" by simp
  with stmt_run [OF assms(1), of r] show ?thesis by simp
qed

lemma sealed_seg:
  assumes u: "CHR '';'' \<notin> set u" and bad: "suffix bad (u @ '';'')"
    and len: "length bad \<le> length import_line" and nb: "\<not> suffix bad import_line"
  shows "sealed (u @ '';'')"
  unfolding sealed_def
proof (intro allI conjI impI notI)
  fix z q assume q: "q \<noteq> []" "suffix q import_line" and s: "startswith q ((u @ '';'') @ z)"
  from suffix_import_semi [OF q(2,1)] obtain q' where q': "q = q' @ '';''"
    "CHR '';'' \<notin> set q'" by blast
  from startswith_stmt [OF q'(2)] s q'(1) have "stmt ((u @ '';'') @ z) = q" by simp
  moreover from stmt_run [OF u, of z] have "stmt ((u @ '';'') @ z) = u @ '';''" by simp
  ultimately have "q = u @ '';''" by simp
  with bad q(2) have "suffix bad import_line" using suffix_order.trans by blast
  with nb show False ..
next
  fix z k assume k: "k < length (u @ '';'')"
    and s: "startswith import_line (drop k ((u @ '';'') @ z))"
  from k have d: "drop k ((u @ '';'') @ z) = drop k u @ CHR '';'' # z" by simp
  from u have "CHR '';'' \<notin> set (drop k u)" by (meson in_set_dropD)
  from stmt_run [OF this, of z] d have 1: "stmt (drop k ((u @ '';'') @ z)) = drop k u @ '';''"
    by simp
  have "suffix import_line import_line" "import_line \<noteq> []" by (simp_all add: import_line_def)
  from suffix_import_semi [OF this] obtain q' where q': "import_line = q' @ '';''"
    "CHR '';'' \<notin> set q'" by blast
  from startswith_stmt [OF q'(2)] s q'(1)
  have "stmt (drop k ((u @ '';'') @ z)) = import_line" by simp
  with 1 have e: "import_line = drop k u @ '';''" by simp
  have "suffix (drop k u @ '';'') (u @ '';'')" by (simp add: suffix_drop)
  from suffix_length_suffix [OF bad this] len e have "suffix bad import_line" by simp
  with nb show False ..
qed

lemma sealed_append:
  assumes x: "sealed x" and y: "sealed y" and n: "x \<noteq> []"
  shows "sealed (x @ y)"
  unfolding sealed_def
proof (intro allI conjI impI)
  fix z q assume "q \<noteq> []" "suffix q import_line"
  with x have "\<not> startswith q (x @ (y @ z))" unfolding sealed_def by blast
  then show "\<not> startswith q ((x @ y) @ z)" by simp
next
  fix z k assume k: "k < length (x @ y)"
  show "\<not> startswith import_line (drop k ((x @ y) @ z))"
  proof (cases "k < length x")
    case True
    with x have "\<not> startswith import_line (drop k (x @ (y @ z)))" unfolding sealed_def by blast
    then show ?thesis by simp
  next
    case False
    with k have "k - length x < length y" by simp
    with y have "\<not> startswith import_line (drop (k - length x) (y @ z))"
      unfolding sealed_def by blast
    with False show ?thesis by simp
  qed
qed

lemma sealed_nonempty: "sealed x \<Longrightarrow> x \<noteq> []"
proof
  assume s: "sealed x" and "x = []"
  have "import_line \<noteq> []" by (simp add: import_line_def)
  with s \<open>x = []\<close> have "\<not> startswith import_line ([] @ import_line)"
    unfolding sealed_def by blast
  then show False by (simp add: startswith_def)
qed

lemma sealed_occ: "sealed x \<Longrightarrow> occurrences import_line (x @ z) = occurrences import_line z"
  by (rule occ_sealed) (simp add: sealed_def)

lemma key_block_sealed:
  assumes w: "ws w" and g: "CHR '';'' \<notin> set g"
    and t: "t = ''Gun::new(secret_key, public_key)'' \<or> t = ''Gun::new(secret_key, public_key))''"
  shows "sealed (key_block w g (t @ '';''))"
proof -
  let ?u1 = "w @ ''// Generate BLS key pair\<newline>'' @ w @ ''let secret_key = SecretKey::from_seed(&[0u8''"
  let ?u2 = "'' 32])''"
  let ?u3 = "CHR ''\<newline>'' # w @ ''let public_key = secret_key.public_key()''"
  let ?u4 = "CHR ''\<newline>'' # w @ g @ t"
  from w have ws: "CHR '';'' \<notin> set w" by (rule ws_no_semi)
  have s1: "CHR '';'' \<notin> set ?u1" using ws by simp
  have s2: "CHR '';'' \<notin> set ?u2" by simp
  have s3: "CHR '';'' \<notin> set ?u3" using ws by simp
  have s4: "CHR '';'' \<notin> set ?u4" using ws g t by auto
  have b1: "suffix ''8;'' (?u1 @ '';'')" by (simp add: suffix_to_prefix)
  have b2: "suffix '');'' (?u2 @ '';'')" by (simp add: suffix_to_prefix)
  have b3: "suffix '');'' (?u3 @ '';'')" by (simp add: suffix_to_prefix)
  have b4: "suffix '');'' (?u4 @ '';'')" using t by (auto simp: suffix_to_prefix)
  have n: "\<not> suffix ''8;'' import_line" "\<not> suffix '');'' import_line"
    "length ''8;'' \<le> length import_line" "length '');'' \<le> length import_line"
    by (simp_all add: import_line_def suffix_to_prefix)
  note c1 = sealed_seg [OF s1 b1 n(3) n(1)]
  note c2 = sealed_seg [OF s2 b2 n(4) n(2)]
  note c3 = sealed_seg [OF s3 b3 n(4) n(2)]
  note c4 = sealed_seg [OF s4 b4 n(4) n(2)]
  have a: "sealed ((?u3 @ '';'') @ (?u4 @ '';''))"
    by (rule sealed_append [OF c3 c4]) simp
  have b: "sealed ((?u2 @ '';'') @ (?u3 @ '';'') @ (?u4 @ '';''))"
    by (rule sealed_append [OF c2 a]) simp
  have "sealed ((?u1 @ '';'') @ (?u2 @ '';'') @ (?u3 @ '';'') @ (?u4 @ '';''))"
    by (rule sealed_append [OF c1 b]) simp
  then show ?thesis unfolding key_block_segments .
qed

lemma re_sub_occ:
  assumes site: "\<And>s ms e. run Q s 0 = Some (ms, e) \<Longrightarrow>
      0 < e \<and> e \<le> length s \<and> sealed (take e s) \<and> sealed (expand r s ms)"
  shows "occurrences import_line (re_sub Q r s) = occurrences import_line s \<and>
         (\<forall>q. q \<noteq> [] \<longrightarrow> suffix q import_line \<longrightarrow>
              startswith q (re_sub Q r s) = startswith q s)"
proof (induction s rule: length_induct)
  case (1 s)
  have IH: "occurrences import_line (re_sub Q r s') = occurrences import_line s' \<and>
         (\<forall>q. q \<noteq> [] \<longrightarrow> suffix q import_line \<longrightarrow>
              startswith q (re_sub Q r s') = startswith q s')"
    if "length s' < length s" for s'
    using 1 that by blast
  show ?case
  proof (cases "run Q s 0")
    case None
    show ?thesis
    proof (cases s)
      case Nil
      with None show ?thesis by (simp add: re_sub_Nil)
    next
      case (Cons c cs)
      let ?y = "re_sub Q r cs"
      from None Cons have "run Q (c # cs) 0 = None" by simp
      then have y: "re_sub Q r (c # cs) = c # ?y" by (rule re_sub_miss)
      from Cons have "length cs < length s" by simp
      from IH [OF this] have o: "occurrences import_line ?y = occurrences import_line cs"
        and j: "\<forall>q. q \<noteq> [] \<longrightarrow> suffix q import_line \<longrightarrow> startswith q ?y = startswith q cs"
        by blast+
      have j': "startswith q (c # ?y) = startswith q (c # cs)"
        if q: "q \<noteq> []" "suffix q import_line" for q
      proof -
        from q(1) obtain a q' where q': "q = a # q'" by (cases q) auto
        show ?thesis
        proof (cases "q' = []")
          case True
          show ?thesis unfolding q' True by (simp add: startswith_Cons)
        next
          case False
          from q(2) q' have "suffix q' import_line" by (simp add: suffix_ConsD)
          with j False have "startswith q' ?y = startswith q' cs" by blast
          then show ?thesis unfolding q' by (simp only: startswith_Cons)
        qed
      qed
      have "suffix import_line import_line" "import_line \<noteq> []"
        by (simp_all add: import_line_def)
      from j' [OF this(2,1)] have "startswith import_line (c # ?y) = startswith import_line (c # cs)" .
      then have o': "occurrences import_line (c # ?y) = occurrences import_line (c # cs)"
        by (simp only: occurrences.simps o)
      have A: "occurrences import_line (re_sub Q r s) = occurrences import_line s"
        unfolding Cons y by (rule o')
      have B: "startswith q (re_sub Q r s) = startswith q s"
        if "q \<noteq> []" "suffix q import_line" for q
        unfolding Cons y using that by (rule j')
      from A B show ?thesis by blast
    qed
  next
    case (Some a)
    obtain ms e where a: "a = (ms, e)" by (cases a)
    with Some have r: "run Q s 0 = Some (ms, e)" by simp
    from site [OF r] have e: "0 < e" "e \<le> length s"
      and m: "sealed (take e s)" and b: "sealed (expand r s ms)" by simp_all
    let ?y = "re_sub Q r (drop e s)"
    from re_sub_hit [OF r e(1)] have y: "re_sub Q r s = expand r s ms @ ?y" .
    have s: "s = take e s @ drop e s" by simp
    from e have "length (drop e s) < length s" by (cases s) auto
    from IH [OF this] have o: "occurrences import_line ?y = occurrences import_line (drop e s)"
      by simp
    from sealed_occ [OF m, of "drop e s"] have 1:
      "occurrences import_line s = occurrences import_line (drop e s)" by simp
    from sealed_occ [OF b, of ?y] o 1 have 2:
      "occurrences import_line (re_sub Q r s) = occurrences import_line s" unfolding y by simp
    have "startswith q (re_sub Q r s) = startswith q s"
      if q: "q \<noteq> []" "suffix q import_line" for q
    proof -
      from b q have "\<not> startswith q (expand r s ms @ ?y)" unfolding sealed_def by blast
      moreover from m q have "\<not> startswith q (take e s @ drop e s)"
        unfolding sealed_def by blast
      ultimately show ?thesis unfolding y by simp
    qed
    with 2 show ?thesis by blast
  qed
qed

lemma pattern_site_sealed:
  assumes "run pattern s 0 = Some (ms, e)"
  shows "0 < e \<and> e \<le> length s \<and> sealed (take e s) \<and> sealed (expand replacement s ms)"
proof -
  from pattern_expand [OF assms] obtain w1 g where
    w: "ws w1" and t: "take e s = w1 @ g @ ''Gun::new();''" and g: "CHR '';'' \<notin> set g"
    and x: "\<forall>y. expand replacement (take e s @ y) ms =
                  key_block w1 g ''Gun::new(secret_key, public_key);''"
    by blast
  from x have "expand replacement (take e s @ drop e s) ms =
      key_block w1 g ''Gun::new(secret_key, public_key);''" by blast
  then have x': "expand replacement s ms =
      key_block w1 g (''Gun::new(secret_key, public_key)'' @ '';'')" by simp
  from w have "CHR '';'' \<notin> set w1" by (rule ws_no_semi)
  with g have u: "CHR '';'' \<notin> set (w1 @ g @ ''Gun::new()'')" by simp
  have "sealed ((w1 @ g @ ''Gun::new()'') @ '';'')"
    by (rule sealed_seg [OF u, where bad = "'');''"])
       (simp_all add: import_line_def suffix_to_prefix)
  with t have "sealed (take e s)" by simp
  moreover have "sealed (key_block w1 g (''Gun::new(secret_key, public_key)'' @ '';''))"
    by (rule key_block_sealed [OF w g]) simp
  then have "sealed (expand replacement s ms)" unfolding x' .
  moreover from run_bounds [OF assms] have "e \<le> length s" by simp
  ultimately show ?thesis using pattern_pos [OF assms] by simp
qed

lemma pattern2_site_sealed:
  assumes "run pattern2 s 0 = Some (ms, e)"
  shows "0 < e \<and> e \<le> length s \<and> sealed (take e s) \<and> sealed (expand replacement2 s ms)"
proof -
  from pattern2_expand [OF assms] obtain w1 g where
    w: "ws w1" and t: "take e s = w1 @ g @ ''Gun::new());''" and g: "CHR '';'' \<notin> set g"
    and x: "\<forall>y. expand replacement2 (take e s @ y) ms =
                  key_block w1 g ''Gun::new(secret_key, public_key));''"
    by blast
  from x have "expand replacement2 (take e s @ drop e s) ms =
      key_block w1 g ''Gun::new(secret_key, public_key));''" by blast
  then have x': "expand replacement2 s ms =
      key_block w1 g (''Gun::new(secret_key, public_key))'' @ '';'')" by simp
  from w have "CHR '';'' \<notin> set w1" by (rule ws_no_semi)
  with g have u: "CHR '';'' \<notin> set (w1 @ g @ ''Gun::new())'')" by simp
  have "sealed ((w1 @ g @ ''Gun::new())'') @ '';'')"
    by (rule sealed_seg [OF u, where bad = "'');''"])
       (simp_all add: import_line_def suffix_to_prefix)
  with t have "sealed (take e s)" by simp
  moreover have "sealed (key_block w1 g (''Gun::new(secret_key, public_key))'' @ '';''))"
    by (rule key_block_sealed [OF w g]) simp
  then have "sealed (expand replacement2 s ms)" unfolding x' .
  moreover from run_bounds [OF assms] have "e \<le> length s" by simp
  ultimately show ?thesis using pattern2_pos [OF assms] by simp
qed

lemma rewrite_new_occ:
  "occurrences import_line (fst (rewrite_new (t, u))) = occurrences import_line t"
proof -
  have "occurrences import_line (re_sub pattern replacement t) = occurrences import_line t"
    using re_sub_occ [of pattern replacement t, OF pattern_site_sealed] by blast
  moreover have "occurrences import_line
      (re_sub pattern2 replacement2 (re_sub pattern replacement t)) =
      occurrences import_line (re_sub pattern replacement t)"
    using re_sub_occ [of pattern2 replacement2 "re_sub pattern replacement t",
      OF pattern2_site_sealed] by blast
  ultimately show ?thesis by (simp add: rewrite_new_fst)
qed

lemma startswith_sep:
  assumes "c \<notin> set p"
  shows "startswith p (a @ c # b) = startswith p a"
proof (cases "length p \<le> length a")
  case True
  then show ?thesis by (simp add: startswith_def)
next
  case False
  then have lt: "length a < length p" by simp
  have "\<not> startswith p a"
  proof
    assume "startswith p a"
    from startswith_length [OF this] lt show False by simp
  qed
  moreover have "\<not> startswith p (a @ c # b)"
  proof
    assume "startswith p (a @ c # b)"
    then have "take (length p) (a @ c # b) = p" by (simp add: startswith_def)
    then have "p ! length a = (a @ c # b) ! length a" using lt by (metis nth_take)
    then have "p ! length a = c" by simp
    with lt have "c \<in> set p" by (metis nth_mem)
    with assms show False ..
  qed
  ultimately show ?thesis by simp
qed

lemma occ_sep:
  assumes "c \<notin> set p" and "p \<noteq> []"
  shows "occurrences p (a @ c # b) = occurrences p a + occurrences p b"
proof (induction a)
  case Nil
  from startswith_sep [OF assms(1), of "[]" b] assms(2)
  have "\<not> startswith p (c # b)" by (simp add: startswith_def)
  then show ?case by simp
next
  case (Cons x a)
  from startswith_sep [OF assms(1), of "x # a" b]
  have "startswith p (x # a @ c # b) = startswith p (x # a)" by simp
  with Cons show ?case by simp
qed

lemma occ_join:
  assumes "CHR 0x0A \<notin> set p" and "p \<noteq> []"
  shows "occurrences p (join_nl ls) = sum_list (map (occurrences p) ls)"
proof (induction ls rule: join_nl.induct)
  case 1
  show ?case by simp
next
  case (2 l)
  show ?case by simp
next
  case (3 l v va)
  then show ?case using occ_sep [OF assms, of l "join_nl (v # va)"] by simp
qed

lemma occ_zero:
  assumes "c \<in> set p" and "c \<notin> set x"
  shows "occurrences p x = 0"
proof -
  have "\<forall>k<length x. \<not> startswith p (drop k (x @ []))"
  proof (intro allI impI notI)
    fix k assume "startswith p (drop k (x @ []))"
    then obtain r where "drop k x = p @ r" by (auto simp: startswith_iff)
    with assms(1) have "c \<in> set (drop k x)" by simp
    with assms(2) show False by (meson in_set_dropD)
  qed
  from occ_sealed [OF this] show ?thesis by simp
qed

lemma sealed_chars:
  assumes x: "x \<noteq> []" and b: "CHR ''{'' \<notin> set x"
    and h: "hd x \<notin> set import_line" and l: "last x \<notin> set import_line"
  shows "sealed x"
  unfolding sealed_def
proof (intro allI conjI impI notI)
  fix z q assume q: "q \<noteq> []" "suffix q import_line" and s: "startswith q (x @ z)"
  from q(1) obtain a q' where q': "q = a # q'" by (cases q) auto
  from x obtain c x' where x': "x = c # x'" by (cases x) auto
  from s have "a = c" unfolding q' x' by (simp add: startswith_Cons)
  moreover from q(2) have "set q \<subseteq> set import_line" by (rule set_mono_suffix)
  ultimately have "c \<in> set import_line" using q' by auto
  with h x' show False by simp
next
  fix z k assume k: "k < length x" and s: "startswith import_line (drop k (x @ z))"
  define v where "v = drop k x"
  from k have u: "v \<noteq> []" "last v = last x" unfolding v_def by simp_all
  from k s have t: "take (length import_line) (v @ z) = import_line"
    unfolding v_def by (simp add: startswith_def)
  show False
  proof (cases "length import_line \<le> length v")
    case True
    with t have "take (length import_line) v = import_line" by simp
    then have "set import_line \<subseteq> set v" by (metis set_take_subset)
    moreover have "CHR ''{'' \<in> set import_line" by (simp add: import_line_def)
    ultimately have "CHR ''{'' \<in> set v" by blast
    then have "CHR ''{'' \<in> set x" unfolding v_def by (meson in_set_dropD)
    with b show False ..
  next
    case False
    then have lt: "length v < length import_line" by simp
    from u(1) have i: "length v - 1 < length v" by (cases v) simp_all
    with lt have "length v - 1 < length import_line" by simp
    then have "take (length import_line) (v @ z) ! (length v - 1) = (v @ z) ! (length v - 1)"
      by (rule nth_take)
    with t have "import_line ! (length v - 1) = (v @ z) ! (length v - 1)" by simp
    also from i have "\<dots> = v ! (length v - 1)" by (simp add: nth_append)
    also from u(1) have "\<dots> = last v" by (simp add: last_conv_nth)
    finally have "import_line ! (length v - 1) = last v" .
    moreover from i lt have "import_line ! (length v - 1) \<in> set import_line"
      by (intro nth_mem) simp
    ultimately have "last v \<in> set import_line" by simp
    with u(2) l show False by simp
  qed
qed

lemma occ_copy_step:
  assumes o: "occurrences import_line y = occurrences import_line cs"
    and j: "\<forall>q. q \<noteq> [] \<longrightarrow> suffix q import_line \<longrightarrow> startswith q y = startswith q cs"
  shows "occurrences import_line (c # y) = occurrences import_line (c # cs) \<and>
         (\<forall>q. q \<noteq> [] \<longrightarrow> suffix q import_line \<longrightarrow>
              startswith q (c # y) = startswith q (c # cs))"
proof -
  have j': "startswith q (c # y) = startswith q (c # cs)"
    if q: "q \<noteq> []" "suffix q import_line" for q
  proof -
    from q(1) obtain a q' where q': "q = a # q'" by (cases q) auto
    show ?thesis
    proof (cases "q' = []")
      case True
      show ?thesis unfolding q' True by (simp add: startswith_Cons)
    next
      case False
      from q(2) q' have "suffix q' import_line" by (simp add: suffix_ConsD)
      with j False have "startswith q' y = startswith q' cs" by blast
      then show ?thesis unfolding q' by (simp only: startswith_Cons)
    qed
  qed
  have "suffix import_line import_line" "import_line \<noteq> []"
    by (simp_all add: import_line_def)
  from j' [OF this(2,1)] have "startswith import_line (c # y) = startswith import_line (c # cs)" .
  then have "occurrences import_line (c # y) = occurrences import_line (c # cs)"
    by (simp only: occurrences.simps o)
  with j' show ?thesis by blast
qed

lemma occ_hit_step:
  assumes m: "sealed m" and b: "sealed b"
    and o: "occurrences import_line y = occurrences import_line rest"
  shows "occurrences import_line (b @ y) = occurrences import_line (m @ rest) \<and>
         (\<forall>q. q \<noteq> [] \<longrightarrow> suffix q import_line \<longrightarrow>
              startswith q (b @ y) = startswith q (m @ rest))"
proof -
  from sealed_occ [OF m, of rest] sealed_occ [OF b, of y] o
  have "occurrences import_line (b @ y) = occurrences import_line (m @ rest)" by simp
  moreover have "startswith q (b @ y) = startswith q (m @ rest)"
    if q: "q \<noteq> []" "suffix q import_line" for q
  proof -
    from b q have "\<not> startswith q (b @ y)" unfolding sealed_def by blast
    moreover from m q have "\<not> startswith q (m @ rest)" unfolding sealed_def by blast
    ultimately show ?thesis by simp
  qed
  ultimately show ?thesis by blast
qed

lemma str_replace_occ:
  assumes old: "sealed old" and new: "sealed new"
  shows "occurrences import_line (str_replace old new s) = occurrences import_line s \<and>
         (\<forall>q. q \<noteq> [] \<longrightarrow> suffix q import_line \<longrightarrow>
              startswith q (str_replace old new s) = startswith q s)"
proof (induction s rule: length_induct)
  case (1 s)
  have IH: "occurrences import_line (str_replace old new s') = occurrences import_line s' \<and>
         (\<forall>q. q \<noteq> [] \<longrightarrow> suffix q import_line \<longrightarrow>
              startswith q (str_replace old new s') = startswith q s')"
    if "length s' < length s" for s'
    using 1 that by blast
  from sealed_nonempty [OF old] have ne: "old \<noteq> []" .
  show ?case
  proof (cases s)
    case Nil
    have "str_replace old new [] = []" using ne by (simp add: str_replace.simps)
    then show ?thesis unfolding Nil by simp
  next
    case (Cons c cs)
    show ?thesis
    proof (cases "startswith old (c # cs)")
      case True
      let ?rest = "drop (length old) (c # cs)"
      from str_replace_step_hit [OF ne _ True, of new]
      have y: "str_replace old new (c # cs) = new @ str_replace old new ?rest" by simp
      from True have s: "c # cs = old @ ?rest"
        by (metis append_take_drop_id startswith_def)
      from ne have "length ?rest < length s" unfolding Cons by (cases old) simp_all
      from IH [OF this] have "occurrences import_line (str_replace old new ?rest) =
          occurrences import_line ?rest" by blast
      from occ_hit_step [OF old new this]
      have "occurrences import_line (new @ str_replace old new ?rest) =
            occurrences import_line (old @ ?rest) \<and>
         (\<forall>q. q \<noteq> [] \<longrightarrow> suffix q import_line \<longrightarrow>
              startswith q (new @ str_replace old new ?rest) = startswith q (old @ ?rest))" .
      then have "occurrences import_line (new @ str_replace old new ?rest) =
            occurrences import_line (c # cs) \<and>
         (\<forall>q. q \<noteq> [] \<longrightarrow> suffix q import_line \<longrightarrow>
              startswith q (new @ str_replace old new ?rest) = startswith q (c # cs))"
        unfolding s [symmetric] .
      then show ?thesis unfolding Cons y .
    next
      case False
      from str_replace_step_miss [OF ne False, of new]
      have y: "str_replace old new (c # cs) = c # str_replace old new cs" .
      from Cons have "length cs < length s" by simp
      from IH [OF this] have "occurrences import_line (str_replace old new cs) =
          occurrences import_line cs"
        "\<forall>q. q \<noteq> [] \<longrightarrow> suffix q import_line \<longrightarrow>
              startswith q (str_replace old new cs) = startswith q cs" by blast+
      from occ_copy_step [OF this, of c] show ?thesis unfolding Cons y .
    qed
  qed
qed

lemma digit_char_no_brace: "d < 10 \<Longrightarrow> digit_char d \<noteq> CHR ''{''"
proof
  assume d: "d < 10" and "digit_char d = CHR ''{''"
  then have "of_char (digit_char d) = (of_char CHR ''{'' :: nat)" by simp
  with d show False by (simp add: digit_char_def)
qed

lemma str_nat_no_brace: "CHR ''{'' \<notin> set (str_nat n)"
proof (induction n rule: str_nat.induct)
  case (1 n)
  show ?case
  proof (cases "n < 10")
    case True
    then have "str_nat n = [digit_char n]" by (simp add: str_nat.simps)
    with digit_char_no_brace [OF True] show ?thesis by auto
  next
    case False
    then have "str_nat n = str_nat (n div 10) @ [digit_char (n mod 10)]"
      by (subst str_nat.simps) simp
    moreover have "digit_char (n mod 10) \<noteq> CHR ''{''" by (rule digit_char_no_brace) simp
    ultimately show ?thesis using 1 False by auto
  qed
qed

lemma key_gen_no_brace: "CHR ''{'' \<notin> set (rstrip (key_gen i k))"
proof -
  have "CHR ''{'' \<notin> set (key_gen i k)"
    using str_nat_no_brace [of k] by (auto simp: key_gen_def Let_def)
  moreover have "set (rstrip (key_gen i k)) \<subseteq> set (key_gen i k)"
    unfolding rstrip_def by (auto dest: set_dropWhileD)
  ultimately show ?thesis by blast
qed

lemma call_texts_sealed:
  assumes "wd x"
  shows "sealed (''Gun::with_options('' @ x @ '')'')"
    and "sealed (''Gun::with_options(secret_key'' @ str_nat k @ '', public_key'' @ str_nat k @
                       '', '' @ x @ '')'')"
proof -
  from assms have x: "CHR ''{'' \<notin> set x" by (auto simp: wd_def is_word_def)
  show "sealed (''Gun::with_options('' @ x @ '')'')"
    by (rule sealed_chars) (use x in \<open>simp_all add: import_line_def\<close>)
  show "sealed (''Gun::with_options(secret_key'' @ str_nat k @ '', public_key'' @ str_nat k @
                       '', '' @ x @ '')'')"
    by (rule sealed_chars) (use x str_nat_no_brace [of k] in \<open>simp_all add: import_line_def\<close>)
qed

lemma options_loop_occ:
  "sum_list (map (occurrences import_line) (fst (options_loop lines i k nl u))) =
   sum_list (map (occurrences import_line) nl) +
   sum_list (map (occurrences import_line) (drop i lines))"
proof (induction "length lines - i" arbitrary: i k nl u)
  case 0
  then have "\<not> i < length lines" by simp
  then show ?case by (simp add: options_loop_done)
next
  case (Suc n)
  then have i: "i < length lines" and n: "n = length lines - (i + 1)" by simp_all
  from i have d: "drop i lines = lines ! i # drop (i + 1) lines"
    by (simp add: Cons_nth_drop_Suc)
  let ?copy = "\<not> contains ''Gun::with_options('' (lines ! i) \<or>
         contains ''SecretKey::from_seed'' (join_nl (slice lines (i - 5) i)) \<or>
         re_search options_pattern (lines ! i) 0 = None"
  show ?case
  proof (cases ?copy)
    case True
    with i have "options_loop lines i k nl u = options_loop lines (i + 1) k (nl @ [lines ! i]) u"
      by (rule options_loop_copy)
    with Suc(1) [OF n, of k "nl @ [lines ! i]" u] show ?thesis unfolding d by simp
  next
    case False
    then obtain ms e where m: "re_search options_pattern (lines ! i) 0 = Some (ms, e)"
      by (cases "re_search options_pattern (lines ! i) 0") auto
    from False have g: "contains ''Gun::with_options('' (lines ! i)"
      and w: "\<not> contains ''SecretKey::from_seed'' (join_nl (slice lines (i - 5) i))"
      by simp_all
    let ?x = "group (lines ! i) ms 1"
    let ?old = "''Gun::with_options('' @ ?x @ '')''"
    let ?new = "''Gun::with_options(secret_key'' @ str_nat k @ '', public_key'' @ str_nat k @
                       '', '' @ ?x @ '')''"
    let ?kg = "rstrip (key_gen (length (lines ! i) - length (lstrip (lines ! i))) k)"
    note x = options_group_word [OF m]
    have "sealed ?old" "sealed ?new"
      by (rule call_texts_sealed(1) [OF x], rule call_texts_sealed(2) [OF x])
    from str_replace_occ [OF this, of "lines ! i"]
    have 1: "occurrences import_line (str_replace ?old ?new (lines ! i)) =
        occurrences import_line (lines ! i)" by blast
    have "CHR ''{'' \<in> set import_line" by (simp add: import_line_def)
    from occ_zero [OF this key_gen_no_brace] have 2: "occurrences import_line ?kg = 0" .
    from options_loop_rewrite [OF i g w m, of k nl u]
    have "options_loop lines i k nl u =
        options_loop lines (i + 1) (k + 1) (nl @ [?kg, str_replace ?old ?new (lines ! i)]) True" .
    with Suc(1) [OF n, of "k + 1" "nl @ [?kg, str_replace ?old ?new (lines ! i)]" True] 1 2
    show ?thesis unfolding d by simp
  qed
qed

lemma rewrite_options_occ:
  "occurrences import_line (fst (rewrite_options (c, u))) = occurrences import_line c"
proof -
  have n: "CHR 0x0A \<notin> set import_line" "import_line \<noteq> []" by (simp_all add: import_line_def)
  have "occurrences import_line (join_nl (fst (options_loop (split_nl c) 0 1 [] u))) =
      sum_list (map (occurrences import_line) (split_nl c))"
    unfolding occ_join [OF n] options_loop_occ by simp
  also have "\<dots> = occurrences import_line (join_nl (split_nl c))"
    by (rule occ_join [OF n, symmetric])
  finally have "occurrences import_line (join_nl (fst (options_loop (split_nl c) 0 1 [] u))) =
      occurrences import_line c" by simp
  then show ?thesis
    by (simp add: rewrite_options_def case_prod_beta)
qed

text \<open>
  C5. Where the file holds the import line \<^verbatim>\<open>use chia_bls::{SecretKey, PublicKey};\<close>, the
  import pass returns the text and the flag as they are, also where the text holds
  \<^verbatim>\<open>use gun::\<close>; and the text that \<open>transform\<close> returns holds the import line at as many
  places as the file does, so a file with one import line never gets a second one.
\<close>

theorem import_line_not_duplicated:
  assumes "contains ''use chia_bls::{SecretKey, PublicKey};'' t"
  shows "add_import (t, u) = (t, u) \<and>
         occurrences ''use chia_bls::{SecretKey, PublicKey};'' (fst (transform t)) =
         occurrences ''use chia_bls::{SecretKey, PublicKey};'' t"
proof -
  from chia_line_has_prefix [OF assms] have "contains ''use chia_bls::'' t" .
  then have a: "add_import (t, v) = (t, v)" for v by (simp add: add_import_skip)
  obtain c f where r: "rewrite_new (t, False) = (c, f)" by (cases "rewrite_new (t, False)")
  from rewrite_new_occ [of t False] r
  have 1: "occurrences import_line c = occurrences import_line t" by simp
  from rewrite_options_occ [of c f]
  have "occurrences import_line (fst (transform t)) = occurrences import_line c"
    by (simp add: transform_def a r)
  with 1 a show ?thesis by (simp add: import_line_def)
qed

theorem import_line_not_duplicated_witness:
  "contains ''use chia_bls::{SecretKey, PublicKey};''
     ''use gun::Gun;\<newline>use chia_bls::{SecretKey, PublicKey};\<newline>fn main() {\<newline>    let db = Arc::new(Gun::new());\<newline>    Gun::with_options(opts);\<newline>}'' \<and>
   add_import (''use gun::Gun;\<newline>use chia_bls::{SecretKey, PublicKey};\<newline>fn main() {\<newline>    let db = Arc::new(Gun::new());\<newline>    Gun::with_options(opts);\<newline>}'', False) =
     (''use gun::Gun;\<newline>use chia_bls::{SecretKey, PublicKey};\<newline>fn main() {\<newline>    let db = Arc::new(Gun::new());\<newline>    Gun::with_options(opts);\<newline>}'', False) \<and>
   occurrences ''use chia_bls::{SecretKey, PublicKey};''
     (fst (transform ''use gun::Gun;\<newline>use chia_bls::{SecretKey, PublicKey};\<newline>fn main() {\<newline>    let db = Arc::new(Gun::new());\<newline>    Gun::with_options(opts);\<newline>}'')) = 1"
proof -
  have c: "contains ''use chia_bls::{SecretKey, PublicKey};''
     ''use gun::Gun;\<newline>use chia_bls::{SecretKey, PublicKey};\<newline>fn main() {\<newline>    let db = Arc::new(Gun::new());\<newline>    Gun::with_options(opts);\<newline>}''"
    by code_simp
  have o: "occurrences ''use chia_bls::{SecretKey, PublicKey};''
     ''use gun::Gun;\<newline>use chia_bls::{SecretKey, PublicKey};\<newline>fn main() {\<newline>    let db = Arc::new(Gun::new());\<newline>    Gun::with_options(opts);\<newline>}'' = 1"
    by code_simp
  from import_line_not_duplicated [OF c, of False] c o show ?thesis by simp
qed

end
